theory Spec2Isabelle
  imports Main
begin

section \<open>Data model\<close>

text \<open>
  Objects that the compiler shares by reference (View Nodes, View References) live in a
  store and are named by their address; an element of the display surface and a component
  type are opaque identities.
\<close>

type_synonym element = nat
type_synonym ctype = nat
type_synonym addr = nat
type_synonym root_injector = nat
type_synonym raw_binding = string

text \<open>
  Every exception of the program is a value.  \<open>TypeError\<close> is what the JavaScript
  runtime raises when a property of \<open>undefined\<close> or \<open>null\<close> is read.
\<close>

datatype error =
    TypeError
  | StructuralError
  | EntryComponentNotRegisteredError
  | UnknownComponentError
  | DependencyResolutionError
  | TemplateSyntaxError

subsection \<open>Tree and TreeNode\<close>

text \<open>
  Modelled from the spec: the generic \<open>Tree\<close>/\<open>TreeNode\<close> of \<open>structs\<close>, which is
  not among the sources.  A tree is given by its root node; a node owns its data and the
  list of its children, in insertion order.
\<close>

datatype 'a tree_node = TreeNode (data: 'a) (children: "'a tree_node list")

text \<open>
  Modelled from the spec: \<open>add(data, parent)\<close> creates a new node and appends it as the
  last child of the node that holds \<open>parent\<close>; it fails with a \<open>StructuralError\<close> when
  no node of the tree holds \<open>parent\<close> (in particular when \<open>parent\<close> is \<open>null\<close>).
  \<open>add_node\<close> is the search for the parent, depth first, children left to right.
\<close>

fun add_node :: "'a \<Rightarrow> 'a \<Rightarrow> 'a tree_node \<Rightarrow> 'a tree_node option"
  and add_nodes :: "'a \<Rightarrow> 'a \<Rightarrow> 'a tree_node list \<Rightarrow> 'a tree_node list option" where
  "add_node d p (TreeNode x ts) =
     (if x = p then Some (TreeNode x (ts @ [TreeNode d []]))
      else (case add_nodes d p ts of None \<Rightarrow> None | Some ts' \<Rightarrow> Some (TreeNode x ts')))"
| "add_nodes d p [] = None"
| "add_nodes d p (t # ts) =
     (case add_node d p t of
        Some t' \<Rightarrow> Some (t' # ts)
      | None \<Rightarrow> (case add_nodes d p ts of None \<Rightarrow> None | Some ts' \<Rightarrow> Some (t # ts')))"

definition tree_add :: "'a \<Rightarrow> 'a option \<Rightarrow> 'a tree_node \<Rightarrow> error + 'a tree_node" where
  "tree_add d parent t =
     (case parent of
        None \<Rightarrow> Inl StructuralError
      | Some p \<Rightarrow> (case add_node d p t of None \<Rightarrow> Inl StructuralError | Some t' \<Rightarrow> Inr t'))"

text \<open>
  Modelled from the spec: \<open>traverseDF\<close> visits in depth-first pre-order and
  \<open>traverseBF\<close> in breadth-first order, both from the root and both in insertion order
  among siblings.  These are the orders of the visits.
\<close>

fun preorder :: "'a tree_node \<Rightarrow> 'a list"
  and preorder_list :: "'a tree_node list \<Rightarrow> 'a list" where
  "preorder (TreeNode x ts) = x # preorder_list ts"
| "preorder_list [] = []"
| "preorder_list (t # ts) = preorder t @ preorder_list ts"

fun tsize :: "'a tree_node \<Rightarrow> nat"
  and tsize_list :: "'a tree_node list \<Rightarrow> nat" where
  "tsize (TreeNode x ts) = Suc (tsize_list ts)"
| "tsize_list [] = 0"
| "tsize_list (t # ts) = tsize t + tsize_list ts"

function breadth_first :: "'a tree_node list \<Rightarrow> 'a list" where
  "breadth_first [] = []"
| "breadth_first (TreeNode x ts # queue) = x # breadth_first (queue @ ts)"
  by pat_completeness auto

lemma tsize_list_append: "tsize_list (ts @ us) = tsize_list ts + tsize_list us"
  by (induction ts) auto

termination breadth_first
  by (relation "measure tsize_list") (auto simp: tsize_list_append)

subsection \<open>Template AST, Bindings, Component References\<close>

text \<open>
  Modelled from the spec: the shapes of \<open>TemplateASTNode\<close>, \<open>Binding\<close>,
  \<open>ComponentRef\<close>, \<open>ViewNode\<close> and \<open>ViewRef\<close>, whose classes are not among the
  sources.  A fresh View Node has no selector, no bindings and no View Reference; a fresh
  View Reference has no render host and is not compiled.
\<close>

record ast_node =
  ast_element :: element
  ast_componentSelector :: "string option"
  ast_bindings :: "raw_binding list"
  ast_directive :: "string option"

record binding =
  b_expression :: string
  b_target :: element

record component_ref =
  cr_instance :: nat
  cr_selector :: string
  cr_template :: string
  cr_hostElement :: element

record view_node =
  vn_element :: element
  vn_componentSelector :: "string option"
  vn_bindings :: "binding list"
  vn_viewRef :: "addr option"

record view_ref =
  vr_componentRef :: component_ref
  vr_nodesTree :: "addr tree_node"
  vr_renderHost :: "element option"
  vr_compiled :: bool

text \<open>
  The trace records, in order, each assignment \<open>viewRef.compiled = true\<close> of the compiler
  and each call of \<open>init()\<close> and \<open>update()\<close> that \<open>View.bootstrap\<close> makes.
\<close>

datatype event = CompiledSet addr | Init addr | Update addr

record heap =
  viewNodes :: "view_node list"
  viewRefs :: "view_ref list"
  trace :: "event list"

definition empty_heap :: heap where
  "empty_heap = \<lparr>viewNodes = [], viewRefs = [], trace = []\<rparr>"

subsection \<open>Collaborators\<close>

text \<open>
  The parser, the component factory, the components registry and the binding builder are
  outside the sources; the compiler takes them as it does in the code, as the objects it
  was constructed with.  The registry answers \<open>undefined\<close> (\<open>None\<close>) for a selector or
  an entry component it does not know.  A collaborator that throws returns \<open>Inl\<close>.
\<close>

record registry =
  getBySelector :: "string \<Rightarrow> ctype option"
  getEntryComponent :: "ctype option"

type_synonym parser = "string \<Rightarrow> element \<Rightarrow> error + ast_node tree_node"
type_synonym component_factory = "ctype option \<Rightarrow> element \<Rightarrow> error + component_ref"
type_synonym binding_builder = "raw_binding \<Rightarrow> addr \<Rightarrow> view_node \<Rightarrow> error + binding"

record compiler =
  c_parser :: parser
  c_componentFactory :: component_factory
  c_componentsRegistry :: registry
  c_bindingBuilder :: "binding_builder option"

record view =
  v_rootInjector :: root_injector
  v_componentsRegistry :: registry
  v_componentFactory :: component_factory
  v_parser :: parser
  v_compiler :: compiler
  v_viewRefTree :: "addr tree_node option"

text \<open>The static fields \<open>Compiler._instance\<close> and \<open>View._instance\<close>.\<close>

record statics =
  Compiler_instance :: "compiler option"
  View_instance :: "view option"

text \<open>
  What \<open>Parser.getInstance(document)\<close> and \<open>ComponentFactory.getInstance(injector, view)\<close>
  hand to the View constructor.
\<close>

record externals =
  Parser_getInstance :: parser
  ComponentFactory_getInstance :: "root_injector \<Rightarrow> component_factory"

section \<open>Compiler\<close>

subsection \<open>getInstance\<close>

definition Compiler_getInstance ::
  "parser \<Rightarrow> component_factory \<Rightarrow> registry \<Rightarrow> binding_builder option \<Rightarrow> statics
    \<Rightarrow> compiler \<times> statics" where
  "Compiler_getInstance parser componentFactory componentsRegistry bindingBuilder st =
     (case Compiler_instance st of
        None \<Rightarrow>
          (let inst = \<lparr>c_parser = parser, c_componentFactory = componentFactory,
                       c_componentsRegistry = componentsRegistry,
                       c_bindingBuilder = bindingBuilder\<rparr>
           in (inst, st\<lparr>Compiler_instance := Some inst\<rparr>))
      | Some inst \<Rightarrow> (inst, st))"

subsection \<open>Building the View Node tree\<close>

text \<open>
  \<open>astNode.bindings.map(astBinding => this._bindingBuilder.build(astBinding, viewNode))\<close>:
  the builder is dereferenced once per raw binding, so an \<open>undefined\<close> builder raises a
  \<open>TypeError\<close> at the first raw binding and is never touched when there is none.  The
  builder receives the View Node (its address and the fields set so far).
\<close>

fun buildBindings ::
  "binding_builder option \<Rightarrow> raw_binding list \<Rightarrow> addr \<Rightarrow> view_node \<Rightarrow> error + binding list" where
  "buildBindings bb [] a vn = Inr []"
| "buildBindings bb (r # rs) a vn =
     (case bb of
        None \<Rightarrow> Inl TypeError
      | Some build \<Rightarrow>
          (case build r a vn of
             Inl e \<Rightarrow> Inl e
           | Inr b \<Rightarrow>
               (case buildBindings bb rs a vn of Inl e \<Rightarrow> Inl e | Inr bs \<Rightarrow> Inr (b # bs))))"

definition buildViewNode :: "compiler \<Rightarrow> ast_node \<Rightarrow> heap \<Rightarrow> error + addr \<times> heap" where
  "buildViewNode C astNode h =
     (let viewNode = length (viewNodes h);
          vn = \<lparr>vn_element = ast_element astNode,
                vn_componentSelector = ast_componentSelector astNode,
                vn_bindings = [], vn_viewRef = None\<rparr>
      in case buildBindings (c_bindingBuilder C) (ast_bindings astNode) viewNode vn of
           Inl e \<Rightarrow> Inl e
         | Inr bs \<Rightarrow> Inr (viewNode, h\<lparr>viewNodes := viewNodes h @ [vn\<lparr>vn_bindings := bs\<rparr>]\<rparr>))"

text \<open>
  \<open>_getViewNodes\<close>: the first call (no tree, no parent) creates the tree; every other
  call adds the new View Node under \<open>parent\<close> in the one tree, which the calls share.
  \<open>getViewNodes_forEach\<close> is \<open>astNode.children.forEach\<close>.
\<close>

fun getViewNodes ::
  "compiler \<Rightarrow> ast_node tree_node \<Rightarrow> addr option \<Rightarrow> addr tree_node option \<Rightarrow> heap
    \<Rightarrow> error + addr tree_node \<times> heap"
  and getViewNodes_forEach ::
  "compiler \<Rightarrow> ast_node tree_node list \<Rightarrow> addr \<Rightarrow> addr tree_node \<Rightarrow> heap
    \<Rightarrow> error + addr tree_node \<times> heap" where
  "getViewNodes C (TreeNode astData astChildren) parent viewNodesTree h =
     (case buildViewNode C astData h of
        Inl e \<Rightarrow> Inl e
      | Inr (viewNode, h1) \<Rightarrow>
          (case (if viewNodesTree = None \<and> parent = None then Inr (TreeNode viewNode [])
                 else (case viewNodesTree of
                         None \<Rightarrow> Inl TypeError
                       | Some t \<Rightarrow> tree_add viewNode parent t)) of
             Inl e \<Rightarrow> Inl e
           | Inr t1 \<Rightarrow> getViewNodes_forEach C astChildren viewNode t1 h1))"
| "getViewNodes_forEach C [] viewNode t h = Inr (t, h)"
| "getViewNodes_forEach C (c # cs) viewNode t h =
     (case getViewNodes C c (Some viewNode) (Some t) h of
        Inl e \<Rightarrow> Inl e
      | Inr (t', h') \<Rightarrow> getViewNodes_forEach C cs viewNode t' h')"

subsection \<open>Compiling View References\<close>

text \<open>
  Modelled from the spec: \<open>ViewRef.updateRenderHost\<close> sets the mount point of the View
  Reference.
\<close>

definition updateRenderHost :: "addr \<Rightarrow> element \<Rightarrow> heap \<Rightarrow> heap" where
  "updateRenderHost viewRef host h =
     h\<lparr>viewRefs := (viewRefs h)[viewRef := (viewRefs h ! viewRef)\<lparr>vr_renderHost := Some host\<rparr>]\<rparr>"

text \<open>
  \<open>hostViewNode.data.viewRef = viewRef\<close>.  In the source \<open>hostViewNode\<close> is a reference
  to a live node; an address outside the store, which no run from \<open>compile\<close> produces,
  is left alone here, and the statements about a recursive call assume that the hosting
  View Node is in the store.
\<close>

definition setViewRef :: "addr \<Rightarrow> addr \<Rightarrow> heap \<Rightarrow> heap" where
  "setViewRef hostViewNode viewRef h =
     h\<lparr>viewNodes := (viewNodes h)[hostViewNode :=
         (viewNodes h ! hostViewNode)\<lparr>vn_viewRef := Some viewRef\<rparr>]\<rparr>"

text \<open>\<open>viewRef.compiled = true\<close>\<close>

definition setCompiled :: "addr \<Rightarrow> heap \<Rightarrow> heap" where
  "setCompiled viewRef h =
     h\<lparr>viewRefs := (viewRefs h)[viewRef := (viewRefs h ! viewRef)\<lparr>vr_compiled := True\<rparr>],
       trace := trace h @ [CompiledSet viewRef]\<rparr>"

text \<open>
  The part of \<open>_compileViewRef\<close> before the traversal: the Component Reference, the
  Template AST, the View Node tree, the new View Reference, its place in the View
  Reference tree and the link from the hosting View Node.  It yields the new View
  Reference, its View Node tree, the View Reference tree and the store.  A throw yields
  the error and the store at the throw: the store of the call when the factory, the
  parser or \<open>_getViewNodes\<close> throws (the View Nodes that a failing \<open>_getViewNodes\<close> has
  made are referenced from nowhere and are left out), and the store with the new View
  Reference when \<open>viewRefTree.add\<close> throws.
\<close>

definition compileViewRef_setup ::
  "compiler \<Rightarrow> ctype option \<Rightarrow> element \<Rightarrow> addr tree_node option \<Rightarrow> addr option \<Rightarrow> addr option
    \<Rightarrow> heap \<Rightarrow> error \<times> heap + addr \<times> addr tree_node \<times> addr tree_node \<times> heap" where
  "compileViewRef_setup C component host viewRefTree parentViewRef hostViewNode h =
     (case c_componentFactory C component host of
        Inl e \<Rightarrow> Inl (e, h)
      | Inr componentRef \<Rightarrow>
     (case c_parser C (cr_template componentRef) host of
        Inl e \<Rightarrow> Inl (e, h)
      | Inr ast \<Rightarrow>
     (case getViewNodes C ast None None h of
        Inl e \<Rightarrow> Inl (e, h)
      | Inr (nodesTree, h1) \<Rightarrow>
          (let viewRef = length (viewRefs h1);
               h2 = h1\<lparr>viewRefs := viewRefs h1 @
                      [\<lparr>vr_componentRef = componentRef, vr_nodesTree = nodesTree,
                        vr_renderHost = None, vr_compiled = False\<rparr>]\<rparr>
           in case (if viewRefTree = None \<and> parentViewRef = None
                    then Inr (TreeNode viewRef [], updateRenderHost viewRef host h2)
                    else (case viewRefTree of
                            None \<Rightarrow> Inl TypeError
                          | Some t \<Rightarrow>
                              (case tree_add viewRef parentViewRef t of
                                 Inl e \<Rightarrow> Inl e
                               | Inr t' \<Rightarrow> Inr (t', h2)))) of
                Inl e \<Rightarrow> Inl (e, h2)
              | Inr (tree1, h3) \<Rightarrow>
                  Inr (viewRef, nodesTree, tree1,
                       (case hostViewNode of
                          None \<Rightarrow> h3
                        | Some n \<Rightarrow> setViewRef n viewRef h3))))))"

text \<open>
  JavaScript truthiness of \<open>viewNode.data.componentSelector\<close>: a selector that is
  \<open>undefined\<close> or the empty string does not count.
\<close>

definition truthy :: "string option \<Rightarrow> bool" where
  "truthy s = (case s of None \<Rightarrow> False | Some x \<Rightarrow> x \<noteq> [])"

text \<open>
  \<open>_compileViewRef\<close> and the traversal \<open>viewRef.nodesTree.traverseDF\<close> with its callback.
  The recursion need not end (a component whose template names itself below the root
  never stops compiling), so the first argument bounds the depth of nested
  \<open>_compileViewRef\<close> calls and \<open>None\<close> says that the bound was reached.  The View
  Reference tree is one object that all calls mutate; here each call returns it.
  \<open>traverseDF\<close> carries whether the node is the root of the tree (\<open>viewNode.isRoot\<close>).
  An error passes through every running call unhandled, with the store as it was at the
  throw: the assignment \<open>viewRef.compiled = true\<close> of those calls is not reached.
\<close>

function (sequential) compileViewRef ::
  "nat \<Rightarrow> compiler \<Rightarrow> ctype option \<Rightarrow> element \<Rightarrow> addr tree_node option \<Rightarrow> addr option
    \<Rightarrow> addr option \<Rightarrow> heap \<Rightarrow> (error \<times> heap + addr tree_node \<times> heap) option"
  and traverseDF ::
  "nat \<Rightarrow> compiler \<Rightarrow> addr \<Rightarrow> bool \<Rightarrow> addr tree_node \<Rightarrow> addr tree_node \<Rightarrow> heap
    \<Rightarrow> (error \<times> heap + addr tree_node \<times> heap) option"
  and traverseDF_children ::
  "nat \<Rightarrow> compiler \<Rightarrow> addr \<Rightarrow> addr tree_node list \<Rightarrow> addr tree_node \<Rightarrow> heap
    \<Rightarrow> (error \<times> heap + addr tree_node \<times> heap) option" where
  "compileViewRef 0 C component host viewRefTree parentViewRef hostViewNode h = None"
| "compileViewRef (Suc n) C component host viewRefTree parentViewRef hostViewNode h =
     (case compileViewRef_setup C component host viewRefTree parentViewRef hostViewNode h of
        Inl e \<Rightarrow> Some (Inl e)
      | Inr (viewRef, nodesTree, tree1, h1) \<Rightarrow>
          (case traverseDF n C viewRef True nodesTree tree1 h1 of
             None \<Rightarrow> None
           | Some (Inl e) \<Rightarrow> Some (Inl e)
           | Some (Inr (tree2, h2)) \<Rightarrow> Some (Inr (tree2, setCompiled viewRef h2))))"
| "traverseDF n C viewRef isRoot (TreeNode viewNode cs) viewRefTree h =
     (case (if \<not> isRoot \<and> truthy (vn_componentSelector (viewNodes h ! viewNode))
            then compileViewRef n C
                   (case vn_componentSelector (viewNodes h ! viewNode) of
                      None \<Rightarrow> None
                    | Some selector \<Rightarrow> getBySelector (c_componentsRegistry C) selector)
                   (vn_element (viewNodes h ! viewNode))
                   (Some viewRefTree) (Some viewRef) (Some viewNode) h
            else Some (Inr (viewRefTree, h))) of
        None \<Rightarrow> None
      | Some (Inl e) \<Rightarrow> Some (Inl e)
      | Some (Inr (tree1, h1)) \<Rightarrow> traverseDF_children n C viewRef cs tree1 h1)"
| "traverseDF_children n C viewRef [] viewRefTree h = Some (Inr (viewRefTree, h))"
| "traverseDF_children n C viewRef (c # cs) viewRefTree h =
     (case traverseDF n C viewRef False c viewRefTree h of
        None \<Rightarrow> None
      | Some (Inl e) \<Rightarrow> Some (Inl e)
      | Some (Inr (tree1, h1)) \<Rightarrow> traverseDF_children n C viewRef cs tree1 h1)"
  by pat_completeness auto

lemma tsize_pos: "0 < tsize t"
  by (cases t) simp

termination compileViewRef
  by (relation "inv_image (less_than <*lex*> less_than)
        (\<lambda>x. case x of
           Inl (n, C, c, host, t, p, hn, h) \<Rightarrow> (n, 0)
         | Inr (Inl (n, C, v, r, t, vt, h)) \<Rightarrow> (n, 2 * tsize t)
         | Inr (Inr (n, C, v, ts, vt, h)) \<Rightarrow> (n, 2 * tsize_list ts + 1))")
     (auto simp: tsize_pos)

text \<open>
  \<open>compile\<close> hands its caller what the outermost \<open>_compileViewRef\<close> returns; of a throw
  the caller gets the error alone.
\<close>

definition compile ::
  "nat \<Rightarrow> compiler \<Rightarrow> ctype option \<Rightarrow> element \<Rightarrow> heap \<Rightarrow> (error + addr tree_node \<times> heap) option" where
  "compile n C component host h =
     (case compileViewRef n C component host None None None h of
        None \<Rightarrow> None
      | Some (Inl (e, h')) \<Rightarrow> Some (Inl e)
      | Some (Inr (viewRefTree, h')) \<Rightarrow> Some (Inr (viewRefTree, h')))"

section \<open>View\<close>

text \<open>
  The constructor calls \<open>Compiler.getInstance\<close> with three arguments: the fourth
  parameter, the binding builder, is \<open>undefined\<close>.
\<close>

definition View_constructor ::
  "externals \<Rightarrow> root_injector \<Rightarrow> registry \<Rightarrow> statics \<Rightarrow> view \<times> statics" where
  "View_constructor ext rootInjector componentsRegistry st =
     (let componentFactory = ComponentFactory_getInstance ext rootInjector;
          parser = Parser_getInstance ext;
          (compiler, st') = Compiler_getInstance parser componentFactory componentsRegistry None st
      in (\<lparr>v_rootInjector = rootInjector, v_componentsRegistry = componentsRegistry,
           v_componentFactory = componentFactory, v_parser = parser,
           v_compiler = compiler, v_viewRefTree = None\<rparr>, st'))"

definition View_getInstance ::
  "externals \<Rightarrow> root_injector \<Rightarrow> registry \<Rightarrow> statics \<Rightarrow> view \<times> statics" where
  "View_getInstance ext rootInjector componentsRegistry st =
     (case View_instance st of
        None \<Rightarrow>
          (let (inst, st') = View_constructor ext rootInjector componentsRegistry st
           in (inst, st'\<lparr>View_instance := Some inst\<rparr>))
      | Some inst \<Rightarrow> (inst, st))"

text \<open>
  Modelled from the spec: \<open>assertEntryComponentRegistered\<close> of \<open>assertions\<close>, not among
  the sources, raises an \<open>EntryComponentNotRegisteredError\<close> for an absent entry component.
\<close>

definition assertEntryComponentRegistered :: "ctype option \<Rightarrow> error + ctype" where
  "assertEntryComponentRegistered entryComponent =
     (case entryComponent of
        None \<Rightarrow> Inl EntryComponentNotRegisteredError
      | Some c \<Rightarrow> Inr c)"

text \<open>
  \<open>this._viewRefTree.traverseBF(treeNode => treeNode.data.init())\<close>.  What \<open>init()\<close> and
  \<open>update()\<close> do inside a View Reference is outside the sources: the trace records the
  calls.
\<close>

definition traverseBF_init :: "addr tree_node \<Rightarrow> heap \<Rightarrow> heap" where
  "traverseBF_init tree h = h\<lparr>trace := trace h @ map Init (breadth_first [tree])\<rparr>"

definition callUpdate :: "addr \<Rightarrow> heap \<Rightarrow> heap" where
  "callUpdate viewRef h = h\<lparr>trace := trace h @ [Update viewRef]\<rparr>"

text \<open>
  \<open>bootstrap\<close>: the first argument bounds the depth of the compilation, as for
  \<open>compileViewRef\<close>.  An error leaves the View as it was: the assignment to
  \<open>viewRefTree\<close> is not reached.
\<close>

definition bootstrap :: "nat \<Rightarrow> view \<Rightarrow> element \<Rightarrow> heap \<Rightarrow> (error + view \<times> heap) option" where
  "bootstrap n V appHost h =
     (case assertEntryComponentRegistered (getEntryComponent (v_componentsRegistry V)) of
        Inl e \<Rightarrow> Some (Inl e)
      | Inr entryComponent \<Rightarrow>
          (case compile n (v_compiler V) (Some entryComponent) appHost h of
             None \<Rightarrow> None
           | Some (Inl e) \<Rightarrow> Some (Inl e)
           | Some (Inr (tree, h1)) \<Rightarrow>
               Some (Inr (V\<lparr>v_viewRefTree := Some tree\<rparr>,
                          callUpdate (data tree) (traverseBF_init tree h1)))))"

text \<open>
  A call of either \<open>getInstance\<close> with its arguments, the instance it returns, and a
  sequence of such calls on the static state: the instances returned, in order.
\<close>

datatype call =
    CompilerCall parser component_factory registry "binding_builder option"
  | ViewCall externals root_injector registry

datatype instance_ref = CompilerInst compiler | ViewInst view

fun getInstance :: "call \<Rightarrow> statics \<Rightarrow> instance_ref \<times> statics" where
  "getInstance (CompilerCall p f r b) st =
     (case Compiler_getInstance p f r b st of (c, st') \<Rightarrow> (CompilerInst c, st'))"
| "getInstance (ViewCall ext i r) st =
     (case View_getInstance ext i r st of (v, st') \<Rightarrow> (ViewInst v, st'))"

fun calls :: "call list \<Rightarrow> statics \<Rightarrow> instance_ref list" where
  "calls [] st = []"
| "calls (c # cs) st = (case getInstance c st of (r, st') \<Rightarrow> r # calls cs st')"

fun is_ViewCall :: "call \<Rightarrow> bool" where
  "is_ViewCall (ViewCall ext i r) = True"
| "is_ViewCall (CompilerCall p f r b) = False"

section \<open>A small application\<close>

text \<open>
  Collaborators of a small application, for evaluating the definitions: component 0 (the
  entry component) hosts the selector \<open>child\<close> once, component 1 is \<open>child\<close> and
  has one bound text element, component 2 names a selector that is not registered.
  The AST of a component has its host element as root; the root of \<open>child\<close> is the
  element that carries the selector.
\<close>

definition demo_registry :: registry where
  "demo_registry =
     \<lparr>getBySelector = (\<lambda>s. if s = ''child'' then Some 1 else None),
      getEntryComponent = Some 0\<rparr>"

definition empty_registry :: registry where
  "empty_registry = \<lparr>getBySelector = (\<lambda>s. None), getEntryComponent = None\<rparr>"

definition demo_factory :: component_factory where
  "demo_factory component host =
     (case component of
        None \<Rightarrow> Inl TypeError
      | Some c \<Rightarrow>
          Inr \<lparr>cr_instance = c,
               cr_selector = (if c = 0 then ''app'' else if c = 1 then ''child'' else ''other''),
               cr_template = (if c = 0 then ''<child></child>''
                              else if c = 1 then ''<p>{{ title }}</p>''
                              else ''<missing></missing>''),
               cr_hostElement = host\<rparr>)"

definition demo_parser :: parser where
  "demo_parser template host =
     (if template = ''<child></child>'' then
        Inr (TreeNode \<lparr>ast_element = host, ast_componentSelector = None,
                        ast_bindings = [], ast_directive = None\<rparr>
              [TreeNode \<lparr>ast_element = host + 1, ast_componentSelector = Some ''child'',
                         ast_bindings = [], ast_directive = None\<rparr> []])
      else if template = ''<p>{{ title }}</p>'' then
        Inr (TreeNode \<lparr>ast_element = host, ast_componentSelector = Some ''child'',
                        ast_bindings = [], ast_directive = None\<rparr>
              [TreeNode \<lparr>ast_element = host + 1, ast_componentSelector = None,
                         ast_bindings = [''title''], ast_directive = None\<rparr> []])
      else if template = ''<missing></missing>'' then
        Inr (TreeNode \<lparr>ast_element = host, ast_componentSelector = None,
                        ast_bindings = [], ast_directive = None\<rparr>
              [TreeNode \<lparr>ast_element = host + 1, ast_componentSelector = Some ''missing'',
                         ast_bindings = [], ast_directive = None\<rparr> []])
      else Inl TemplateSyntaxError)"

definition demo_builder :: binding_builder where
  "demo_builder astBinding a vn = Inr \<lparr>b_expression = astBinding, b_target = vn_element vn\<rparr>"

definition demo_compiler :: compiler where
  "demo_compiler =
     \<lparr>c_parser = demo_parser, c_componentFactory = demo_factory,
      c_componentsRegistry = demo_registry, c_bindingBuilder = Some demo_builder\<rparr>"

definition demo_externals :: externals where
  "demo_externals =
     \<lparr>Parser_getInstance = demo_parser, ComponentFactory_getInstance = (\<lambda>i. demo_factory)\<rparr>"

definition no_statics :: statics where
  "no_statics = \<lparr>Compiler_instance = None, View_instance = None\<rparr>"

text \<open>A Template AST of four nodes and the store after \<open>_getViewNodes\<close> has run on it.\<close>

definition demo_ast :: "ast_node tree_node" where
  "demo_ast =
     TreeNode \<lparr>ast_element = 100, ast_componentSelector = Some ''child'',
                ast_bindings = [], ast_directive = None\<rparr>
       [TreeNode \<lparr>ast_element = 101, ast_componentSelector = None,
                   ast_bindings = [''title'', ''subtitle''], ast_directive = None\<rparr>
          [TreeNode \<lparr>ast_element = 102, ast_componentSelector = None,
                      ast_bindings = [], ast_directive = Some ''if''\<rparr> []],
        TreeNode \<lparr>ast_element = 103, ast_componentSelector = Some ''other'',
                   ast_bindings = [''name''], ast_directive = None\<rparr> []]"

definition demo_ast_heap :: heap where
  "demo_ast_heap =
     \<lparr>viewNodes =
        [\<lparr>vn_element = 100, vn_componentSelector = Some ''child'',
           vn_bindings = [], vn_viewRef = None\<rparr>,
         \<lparr>vn_element = 101, vn_componentSelector = None,
           vn_bindings = [\<lparr>b_expression = ''title'', b_target = 101\<rparr>,
                          \<lparr>b_expression = ''subtitle'', b_target = 101\<rparr>],
           vn_viewRef = None\<rparr>,
         \<lparr>vn_element = 102, vn_componentSelector = None, vn_bindings = [],
           vn_viewRef = None\<rparr>,
         \<lparr>vn_element = 103, vn_componentSelector = Some ''other'',
           vn_bindings = [\<lparr>b_expression = ''name'', b_target = 103\<rparr>],
           vn_viewRef = None\<rparr>],
      viewRefs = [], trace = []\<rparr>"

text \<open>
  The compilation of the entry component of the small application: the View Reference
  tree and the store it returns.  View Node 1 is the placeholder for \<open>child\<close> in the
  tree of the entry component; View Node 2 is the root of the tree of \<open>child\<close>.
\<close>

definition demo_tree :: "addr tree_node" where
  "demo_tree = TreeNode 0 [TreeNode 1 []]"

definition demo_heap :: heap where
  "demo_heap =
     \<lparr>viewNodes =
        [\<lparr>vn_element = 100, vn_componentSelector = None, vn_bindings = [], vn_viewRef = None\<rparr>,
         \<lparr>vn_element = 101, vn_componentSelector = Some ''child'', vn_bindings = [],
           vn_viewRef = Some 1\<rparr>,
         \<lparr>vn_element = 101, vn_componentSelector = Some ''child'', vn_bindings = [],
           vn_viewRef = None\<rparr>,
         \<lparr>vn_element = 102, vn_componentSelector = None,
           vn_bindings = [\<lparr>b_expression = ''title'', b_target = 102\<rparr>], vn_viewRef = None\<rparr>],
      viewRefs =
        [\<lparr>vr_componentRef = \<lparr>cr_instance = 0, cr_selector = ''app'',
             cr_template = ''<child></child>'', cr_hostElement = 100\<rparr>,
           vr_nodesTree = TreeNode 0 [TreeNode 1 []],
           vr_renderHost = Some 100, vr_compiled = True\<rparr>,
         \<lparr>vr_componentRef = \<lparr>cr_instance = 1, cr_selector = ''child'',
             cr_template = ''<p>{{ title }}</p>'', cr_hostElement = 101\<rparr>,
           vr_nodesTree = TreeNode 2 [TreeNode 3 []],
           vr_renderHost = None, vr_compiled = True\<rparr>],
      trace = [CompiledSet 1, CompiledSet 0]\<rparr>"

text \<open>
  The store when the entry component's \<open>_compileViewRef\<close> starts its traversal, and the
  store when the recursive call for \<open>child\<close> has returned.
\<close>

definition demo_mid :: heap where
  "demo_mid =
     \<lparr>viewNodes =
        [\<lparr>vn_element = 100, vn_componentSelector = None, vn_bindings = [], vn_viewRef = None\<rparr>,
         \<lparr>vn_element = 101, vn_componentSelector = Some ''child'', vn_bindings = [],
           vn_viewRef = None\<rparr>],
      viewRefs =
        [\<lparr>vr_componentRef = \<lparr>cr_instance = 0, cr_selector = ''app'',
             cr_template = ''<child></child>'', cr_hostElement = 100\<rparr>,
           vr_nodesTree = TreeNode 0 [TreeNode 1 []],
           vr_renderHost = Some 100, vr_compiled = False\<rparr>],
      trace = []\<rparr>"

definition demo_inner :: heap where
  "demo_inner =
     demo_heap\<lparr>viewRefs := (viewRefs demo_heap)[0 := (viewRefs demo_heap ! 0)\<lparr>vr_compiled := False\<rparr>],
       trace := [CompiledSet 1]\<rparr>"




text \<open>
  The Compiler that the View creates when none exists yet: the compiler of the small
  application without a binding builder.
\<close>

definition demo_bare :: compiler where
  "demo_bare = v_compiler (fst (View_constructor demo_externals 0 demo_registry no_statics))"



text \<open>
  The small application with one more component, 3, whose template hosts \<open>child\<close> and
  then a selector that is not registered, and with a component factory that rejects an
  undefined component type with an \<open>UnknownComponentError\<close>.
\<close>

definition demo_strict_factory :: component_factory where
  "demo_strict_factory component host =
     (case component of
        None \<Rightarrow> Inl UnknownComponentError
      | Some c \<Rightarrow>
          if c = 3
          then Inr \<lparr>cr_instance = 3, cr_selector = ''wide'',
                    cr_template = ''<child></child><missing></missing>'', cr_hostElement = host\<rparr>
          else demo_factory component host)"

definition demo_strict_parser :: parser where
  "demo_strict_parser template host =
     (if template = ''<child></child><missing></missing>'' then
        Inr (TreeNode \<lparr>ast_element = host, ast_componentSelector = None,
                        ast_bindings = [], ast_directive = None\<rparr>
              [TreeNode \<lparr>ast_element = host + 1, ast_componentSelector = Some ''child'',
                         ast_bindings = [], ast_directive = None\<rparr> [],
               TreeNode \<lparr>ast_element = host + 2, ast_componentSelector = Some ''missing'',
                         ast_bindings = [], ast_directive = None\<rparr> []])
      else demo_parser template host)"

definition demo_strict :: compiler where
  "demo_strict =
     demo_compiler\<lparr>c_componentFactory := demo_strict_factory, c_parser := demo_strict_parser\<rparr>"

text \<open>
  The store when the compilation of component 3 is aborted at View Node 2, which carries
  the selector that is not registered: the View Reference of \<open>child\<close> is compiled, the
  View Reference of component 3 is not.
\<close>

definition demo_aborted :: heap where
  "demo_aborted =
     \<lparr>viewNodes =
        [\<lparr>vn_element = 100, vn_componentSelector = None, vn_bindings = [], vn_viewRef = None\<rparr>,
         \<lparr>vn_element = 101, vn_componentSelector = Some ''child'', vn_bindings = [],
           vn_viewRef = Some 1\<rparr>,
         \<lparr>vn_element = 102, vn_componentSelector = Some ''missing'', vn_bindings = [],
           vn_viewRef = None\<rparr>,
         \<lparr>vn_element = 101, vn_componentSelector = Some ''child'', vn_bindings = [],
           vn_viewRef = None\<rparr>,
         \<lparr>vn_element = 102, vn_componentSelector = None,
           vn_bindings = [\<lparr>b_expression = ''title'', b_target = 102\<rparr>], vn_viewRef = None\<rparr>],
      viewRefs =
        [\<lparr>vr_componentRef = \<lparr>cr_instance = 3, cr_selector = ''wide'',
             cr_template = ''<child></child><missing></missing>'', cr_hostElement = 100\<rparr>,
           vr_nodesTree = TreeNode 0 [TreeNode 1 [], TreeNode 2 []],
           vr_renderHost = Some 100, vr_compiled = False\<rparr>,
         \<lparr>vr_componentRef = \<lparr>cr_instance = 1, cr_selector = ''child'',
             cr_template = ''<p>{{ title }}</p>'', cr_hostElement = 101\<rparr>,
           vr_nodesTree = TreeNode 3 [TreeNode 4 []],
           vr_renderHost = None, vr_compiled = True\<rparr>],
      trace = [CompiledSet 1]\<rparr>"



section \<open>Notions for the statements\<close>

text \<open>
  \<open>graft s p t\<close> hangs the subtree \<open>s\<close> as the last child of the node of \<open>t\<close> that holds
  \<open>p\<close>, found as \<open>add\<close> finds it; \<open>label n t\<close> is the tree of the shape of \<open>t\<close> whose
  nodes hold the addresses \<open>n, n + 1, \<dots>\<close> in pre-order, the order in which
  \<open>_getViewNodes\<close> creates the View Nodes.
\<close>

fun graft :: "'a tree_node \<Rightarrow> 'a \<Rightarrow> 'a tree_node \<Rightarrow> 'a tree_node option"
  and graft_list :: "'a tree_node \<Rightarrow> 'a \<Rightarrow> 'a tree_node list \<Rightarrow> 'a tree_node list option" where
  "graft s p (TreeNode x ts) =
     (if x = p then Some (TreeNode x (ts @ [s]))
      else (case graft_list s p ts of None \<Rightarrow> None | Some ts' \<Rightarrow> Some (TreeNode x ts')))"
| "graft_list s p [] = None"
| "graft_list s p (t # ts) =
     (case graft s p t of
        Some t' \<Rightarrow> Some (t' # ts)
      | None \<Rightarrow> (case graft_list s p ts of None \<Rightarrow> None | Some ts' \<Rightarrow> Some (t # ts')))"

fun label :: "nat \<Rightarrow> 'a tree_node \<Rightarrow> nat tree_node"
  and label_list :: "nat \<Rightarrow> 'a tree_node list \<Rightarrow> nat tree_node list" where
  "label n (TreeNode x ts) = TreeNode n (label_list (Suc n) ts)"
| "label_list n [] = []"
| "label_list n (t # ts) = label n t # label_list (n + tsize t) ts"

fun graft_all :: "'a tree_node list \<Rightarrow> 'a \<Rightarrow> 'a tree_node \<Rightarrow> 'a tree_node option" where
  "graft_all [] p t = Some t"
| "graft_all (s # ss) p t = (case graft s p t of None \<Rightarrow> None | Some t1 \<Rightarrow> graft_all ss p t1)"

text \<open>
  The View Node that \<open>_buildViewNode\<close> hands to the binding builder: element and
  selector of the AST node are set, the bindings are not yet.
\<close>

definition fresh_node :: "ast_node \<Rightarrow> view_node" where
  "fresh_node a = \<lparr>vn_element = ast_element a, vn_componentSelector = ast_componentSelector a,
                    vn_bindings = [], vn_viewRef = None\<rparr>"

text \<open>
  The spec's structure-preserving 1:1 mapping: the View Node tree \<open>t\<close> mirrors the
  Template AST when its root is a View Node of the store with the element and the
  selector of the AST's root and, for each raw binding in order, the Binding that the
  binding builder built from it, and when the children of the two roots correspond one
  to one, in order, each View Node subtree mirroring its AST subtree.
\<close>

fun mirrors :: "compiler \<Rightarrow> heap \<Rightarrow> ast_node tree_node \<Rightarrow> addr tree_node \<Rightarrow> bool" where
  "mirrors C h (TreeNode a cs) (TreeNode v ts) =
     (v < length (viewNodes h) \<and>
      vn_element (viewNodes h ! v) = ast_element a \<and>
      vn_componentSelector (viewNodes h ! v) = ast_componentSelector a \<and>
      list_all2 (\<lambda>r b. case c_bindingBuilder C of
                          None \<Rightarrow> False
                        | Some build \<Rightarrow> build r v (fresh_node a) = Inr b)
        (ast_bindings a) (vn_bindings (viewNodes h ! v)) \<and>
      list_all2 (mirrors C h) cs ts)"

text \<open>\<open>appended h h' k\<close>: \<open>h'\<close> is \<open>h\<close> with \<open>k\<close> new View Nodes, none linked to a View Reference.\<close>

definition appended :: "heap \<Rightarrow> heap \<Rightarrow> nat \<Rightarrow> bool" where
  "appended h h' k =
     (\<exists>vns. h' = h\<lparr>viewNodes := viewNodes h @ vns\<rparr> \<and> length vns = k \<and>
            (\<forall>vn \<in> set vns. vn_viewRef vn = None))"

text \<open>The parent/child pairs of a tree.\<close>

fun edges :: "'a tree_node \<Rightarrow> ('a \<times> 'a) list"
  and edges_list :: "'a tree_node list \<Rightarrow> ('a \<times> 'a) list" where
  "edges (TreeNode x ts) = map (\<lambda>t. (x, data t)) ts @ edges_list ts"
| "edges_list [] = []"
| "edges_list (t # ts) = edges t @ edges_list ts"

text \<open>\<open>precedes x y xs\<close>: \<open>y\<close> occurs in \<open>xs\<close> after the first occurrence of \<open>x\<close>.\<close>

definition precedes :: "'a \<Rightarrow> 'a \<Rightarrow> 'a list \<Rightarrow> bool" where
  "precedes x y xs = (y \<in> set (tl (dropWhile (\<lambda>z. z \<noteq> x) xs)))"

text \<open>
  The callback of the traversal on a node that is not the root, and the traversal of a
  sequence of such nodes.
\<close>

definition callback ::
  "nat \<Rightarrow> compiler \<Rightarrow> addr \<Rightarrow> addr \<Rightarrow> addr tree_node \<Rightarrow> heap
    \<Rightarrow> (error \<times> heap + addr tree_node \<times> heap) option" where
  "callback n C viewRef viewNode viewRefTree h =
     (if truthy (vn_componentSelector (viewNodes h ! viewNode))
      then compileViewRef n C
             (case vn_componentSelector (viewNodes h ! viewNode) of
                None \<Rightarrow> None
              | Some selector \<Rightarrow> getBySelector (c_componentsRegistry C) selector)
             (vn_element (viewNodes h ! viewNode))
             (Some viewRefTree) (Some viewRef) (Some viewNode) h
      else Some (Inr (viewRefTree, h)))"

fun visit_all ::
  "nat \<Rightarrow> compiler \<Rightarrow> addr \<Rightarrow> addr list \<Rightarrow> addr tree_node \<Rightarrow> heap
    \<Rightarrow> (error \<times> heap + addr tree_node \<times> heap) option" where
  "visit_all n C viewRef [] viewRefTree h = Some (Inr (viewRefTree, h))"
| "visit_all n C viewRef (a # as) viewRefTree h =
     (case callback n C viewRef a viewRefTree h of
        None \<Rightarrow> None
      | Some (Inl e) \<Rightarrow> Some (Inl e)
      | Some (Inr (tree1, h1)) \<Rightarrow> visit_all n C viewRef as tree1 h1)"

text \<open>The component type that the registry resolves a node's selector to.\<close>

definition resolve :: "compiler \<Rightarrow> string option \<Rightarrow> ctype option" where
  "resolve C s =
     (case s of None \<Rightarrow> None | Some selector \<Rightarrow> getBySelector (c_componentsRegistry C) selector)"

text \<open>
  \<open>linked C h v a\<close>: the node \<open>a\<close> of the View Node tree of the View Reference \<open>v\<close> is
  as a finished compilation leaves a node that is not the root.  Without a truthy
  selector it has no View Reference.  With one, it holds a View Reference \<open>c\<close> that was
  created after \<open>v\<close>, for the Component Reference that the factory made from the
  registry's answer for the selector and from the node's element, and \<open>c\<close> was marked
  compiled before \<open>v\<close> was.
\<close>

definition linked :: "compiler \<Rightarrow> heap \<Rightarrow> addr \<Rightarrow> addr \<Rightarrow> bool" where
  "linked C h v a =
     (if truthy (vn_componentSelector (viewNodes h ! a))
      then (case vn_viewRef (viewNodes h ! a) of
              None \<Rightarrow> False
            | Some c \<Rightarrow>
                v < c \<and> c < length (viewRefs h) \<and>
                c_componentFactory C (resolve C (vn_componentSelector (viewNodes h ! a)))
                    (vn_element (viewNodes h ! a))
                  = Inr (vr_componentRef (viewRefs h ! c)) \<and>
                precedes (CompiledSet c) (CompiledSet v) (trace h))
      else vn_viewRef (viewNodes h ! a) = None)"

text \<open>
  \<open>settled C h v\<close>: the View Reference \<open>v\<close> is compiled, the nodes of its View Node tree
  are in the store, the root of that tree has no View Reference, and every other node is
  linked.
\<close>

definition settled :: "compiler \<Rightarrow> heap \<Rightarrow> addr \<Rightarrow> bool" where
  "settled C h v =
     (vr_compiled (viewRefs h ! v) \<and>
      set (preorder (vr_nodesTree (viewRefs h ! v))) \<subseteq> {..<length (viewNodes h)} \<and>
      vn_viewRef (viewNodes h ! data (vr_nodesTree (viewRefs h ! v))) = None \<and>
      (\<forall>a \<in> set (preorder_list (children (vr_nodesTree (viewRefs h ! v)))). linked C h v a))"

text \<open>
  \<open>step C S h h'\<close>: what a part of a compilation does to the store.  The store grows;
  the View References that existed are untouched, and so are the View Nodes that existed,
  but for those in \<open>S\<close>; every new View Reference is settled, over new View Nodes; the
  trace gains one \<open>CompiledSet\<close> for each new View Reference and nothing else.
\<close>

definition step :: "compiler \<Rightarrow> addr set \<Rightarrow> heap \<Rightarrow> heap \<Rightarrow> bool" where
  "step C S h h' =
     (length (viewNodes h) \<le> length (viewNodes h') \<and>
      length (viewRefs h) \<le> length (viewRefs h') \<and>
      (\<forall>i < length (viewRefs h). viewRefs h' ! i = viewRefs h ! i) \<and>
      (\<forall>a < length (viewNodes h). a \<notin> S \<longrightarrow> viewNodes h' ! a = viewNodes h ! a) \<and>
      (\<forall>i. length (viewRefs h) \<le> i \<and> i < length (viewRefs h') \<longrightarrow>
           settled C h' i \<and>
           set (preorder (vr_nodesTree (viewRefs h' ! i))) \<subseteq> {length (viewNodes h)..}) \<and>
      (\<exists>ws. trace h' = trace h @ map CompiledSet ws \<and> distinct ws \<and>
            set ws = {length (viewRefs h)..<length (viewRefs h')}))"

text \<open>\<open>node_post C h h' a\<close>: what the visit of the node \<open>a\<close> does to it.\<close>

definition node_post :: "compiler \<Rightarrow> heap \<Rightarrow> heap \<Rightarrow> addr \<Rightarrow> bool" where
  "node_post C h h' a =
     (if truthy (vn_componentSelector (viewNodes h ! a))
      then \<exists>c. viewNodes h' ! a = (viewNodes h ! a)\<lparr>vn_viewRef := Some c\<rparr> \<and>
               length (viewRefs h) \<le> c \<and> c < length (viewRefs h') \<and>
               c_componentFactory C (resolve C (vn_componentSelector (viewNodes h ! a)))
                   (vn_element (viewNodes h ! a))
                 = Inr (vr_componentRef (viewRefs h' ! c))
      else viewNodes h' ! a = viewNodes h ! a)"

text \<open>
  \<open>tree_post t t' h h'\<close>: what a part of a compilation does to the View Reference tree.
  The root stays; the tree gains one node for each new View Reference; no edge is lost.
\<close>

definition tree_post :: "addr tree_node \<Rightarrow> addr tree_node \<Rightarrow> heap \<Rightarrow> heap \<Rightarrow> bool" where
  "tree_post t t' h h' =
     (data t' = data t \<and>
      set (preorder t') = set (preorder t) \<union> {length (viewRefs h)..<length (viewRefs h')} \<and>
      length (preorder t') = length (preorder t) + (length (viewRefs h') - length (viewRefs h)) \<and>
      set (edges t) \<subseteq> set (edges t'))"

text \<open>\<open>compile_post\<close>: what a call of \<open>_compileViewRef\<close> that returns has done.\<close>

definition compile_post ::
  "compiler \<Rightarrow> ctype option \<Rightarrow> element \<Rightarrow> addr tree_node option \<Rightarrow> addr option \<Rightarrow> addr option
    \<Rightarrow> heap \<Rightarrow> addr tree_node \<Rightarrow> heap \<Rightarrow> bool" where
  "compile_post C component host T P H h t' h' =
     (step C (set_option H) h h' \<and>
      length (viewRefs h) < length (viewRefs h') \<and>
      (\<forall>a. H = Some a \<longrightarrow>
           viewNodes h' ! a = (viewNodes h ! a)\<lparr>vn_viewRef := Some (length (viewRefs h))\<rparr>) \<and>
      c_componentFactory C component host
        = Inr (vr_componentRef (viewRefs h' ! length (viewRefs h))) \<and>
      vr_renderHost (viewRefs h' ! length (viewRefs h))
        = (if T = None \<and> P = None then Some host else None) \<and>
      (\<exists>ws. trace h' = trace h @ map CompiledSet (ws @ [length (viewRefs h)])) \<and>
      (case T of
         None \<Rightarrow>
           P = None \<and> data t' = length (viewRefs h) \<and>
           set (preorder t') = {length (viewRefs h)..<length (viewRefs h')} \<and>
           length (preorder t') = length (viewRefs h') - length (viewRefs h)
       | Some t \<Rightarrow>
           tree_post t t' h h' \<and> (\<exists>p. P = Some p \<and> (p, length (viewRefs h)) \<in> set (edges t'))))"

text \<open>\<open>compile_ok n C\<close>: every call of \<open>_compileViewRef\<close> that returns within depth \<open>n\<close>
  satisfies \<open>compile_post\<close>, provided its hosting View Node, if any, is in the store.\<close>

definition compile_ok :: "nat \<Rightarrow> compiler \<Rightarrow> bool" where
  "compile_ok n C =
     (\<forall>c host T P H h t' h'.
        compileViewRef n C c host T P H h = Some (Inr (t', h')) \<longrightarrow>
        (\<forall>a. H = Some a \<longrightarrow> a < length (viewNodes h)) \<longrightarrow>
        compile_post C c host T P H h t' h')"

text \<open>
  \<open>fuel_ok n C\<close>: what \<open>_compileViewRef\<close> returns within depth \<open>n\<close> it returns within
  depth \<open>n + 1\<close>.
\<close>

definition fuel_ok :: "nat \<Rightarrow> compiler \<Rightarrow> bool" where
  "fuel_ok n C =
     (\<forall>c host T P H h r. compileViewRef n C c host T P H h = Some r \<longrightarrow>
        compileViewRef (Suc n) C c host T P H h = Some r)"

text \<open>
  \<open>builds C ast\<close>: the binding builder of \<open>C\<close> builds the raw bindings of every node of
  the Template AST, at whatever address the View Node is created.
\<close>

definition builds :: "compiler \<Rightarrow> ast_node tree_node \<Rightarrow> bool" where
  "builds C ast =
     (\<forall>a \<in> set (preorder ast). \<forall>v.
        \<exists>bs. buildBindings (c_bindingBuilder C) (ast_bindings a) v (fresh_node a) = Inr bs)"

text \<open>
  \<open>compilable C n component host\<close>: the component compiles on the host element within
  depth \<open>n\<close>.  The factory makes its Component Reference, the parser its Template AST,
  the binding builder builds the bindings of the AST, and every node of the AST but the
  root that carries a selector names a component that compiles, on the element of the
  node, within depth \<open>n - 1\<close>.
\<close>

fun compilable :: "compiler \<Rightarrow> nat \<Rightarrow> ctype option \<Rightarrow> element \<Rightarrow> bool" where
  "compilable C 0 component host = False"
| "compilable C (Suc n) component host =
     (case c_componentFactory C component host of
        Inl e \<Rightarrow> False
      | Inr componentRef \<Rightarrow>
          (case c_parser C (cr_template componentRef) host of
             Inl e \<Rightarrow> False
           | Inr ast \<Rightarrow>
               builds C ast \<and>
               (\<forall>a \<in> set (preorder_list (children ast)).
                  truthy (ast_componentSelector a) \<longrightarrow>
                  compilable C n (resolve C (ast_componentSelector a)) (ast_element a))))"


text \<open>
  \<open>placed T P\<close>: a call of \<open>_compileViewRef\<close> has a place for its View Reference.  It
  is the outermost call, or it is given the tree and a parent that is a node of the tree.
\<close>

definition placed :: "addr tree_node option \<Rightarrow> addr option \<Rightarrow> bool" where
  "placed T P =
     (case T of
        None \<Rightarrow> P = None
      | Some t \<Rightarrow> (case P of None \<Rightarrow> False | Some p \<Rightarrow> p \<in> set (preorder t)))"

text \<open>Element and selector of a View Node of the store, and of an AST node.\<close>

definition contents :: "heap \<Rightarrow> addr \<Rightarrow> element \<times> string option" where
  "contents h a = (vn_element (viewNodes h ! a), vn_componentSelector (viewNodes h ! a))"

definition ast_contents :: "ast_node \<Rightarrow> element \<times> string option" where
  "ast_contents x = (ast_element x, ast_componentSelector x)"

text \<open>
  \<open>total_ok n C\<close>: every call of \<open>_compileViewRef\<close> that has a place for its View
  Reference returns a tree on a component that compiles within depth \<open>n\<close>.
\<close>

definition total_ok :: "nat \<Rightarrow> compiler \<Rightarrow> bool" where
  "total_ok n C =
     (\<forall>c host T P H h. compilable C n c host \<longrightarrow> placed T P \<longrightarrow>
        (\<exists>t' h'. compileViewRef n C c host T P H h = Some (Inr (t', h'))))"

text \<open>
  \<open>flags_post h h'\<close>: what a part of a compilation, finished or aborted, does to the
  \<open>compiled\<close> flags.  The View References that existed are untouched; the trace gains
  \<open>CompiledSet\<close> events only, at most one for each new View Reference, and a new View
  Reference is compiled exactly when it has its event.  \<open>abort_post h h'\<close> adds that the
  first new View Reference, if there is one, is not compiled.
\<close>

definition flags_post :: "heap \<Rightarrow> heap \<Rightarrow> bool" where
  "flags_post h h' =
     (length (viewRefs h) \<le> length (viewRefs h') \<and>
      (\<forall>i < length (viewRefs h). viewRefs h' ! i = viewRefs h ! i) \<and>
      (\<exists>ws. trace h' = trace h @ map CompiledSet ws \<and> distinct ws \<and>
            set ws \<subseteq> {length (viewRefs h)..<length (viewRefs h')} \<and>
            (\<forall>i. length (viewRefs h) \<le> i \<and> i < length (viewRefs h') \<longrightarrow>
                 vr_compiled (viewRefs h' ! i) = (i \<in> set ws))))"

definition abort_post :: "heap \<Rightarrow> heap \<Rightarrow> bool" where
  "abort_post h h' =
     (flags_post h h' \<and>
      (length (viewRefs h) < length (viewRefs h') \<longrightarrow>
         \<not> vr_compiled (viewRefs h' ! length (viewRefs h))))"

text \<open>
  \<open>abort_ok n C\<close>: every call of \<open>_compileViewRef\<close> that throws within depth \<open>n\<close>
  satisfies \<open>abort_post\<close>.  \<open>aborts_ok n C\<close>: every call that has a place for its View
  Reference throws \<open>e\<close> on a component whose compilation fails with \<open>e\<close> within depth
  \<open>n\<close>.
\<close>

definition abort_ok :: "nat \<Rightarrow> compiler \<Rightarrow> bool" where
  "abort_ok n C =
     (\<forall>c host T P H h e h'.
        compileViewRef n C c host T P H h = Some (Inl (e, h')) \<longrightarrow> abort_post h h')"


section \<open>Singletons\<close>

lemma Compiler_getInstance_new:
  "Compiler_getInstance p f r b st = (c, st') \<Longrightarrow>
     Compiler_instance st' = Some c \<and> View_instance st' = View_instance st"
  by (auto simp: Compiler_getInstance_def Let_def split: option.splits)

lemma Compiler_getInstance_old:
  "Compiler_instance st = Some c \<Longrightarrow> Compiler_getInstance p f r b st = (c, st)"
  by (simp add: Compiler_getInstance_def)

lemma View_constructor_statics:
  "View_constructor ext i r st = (v, st') \<Longrightarrow>
     View_instance st' = View_instance st \<and>
     (\<forall>c. Compiler_instance st = Some c \<longrightarrow> Compiler_instance st' = Some c)"
  by (auto simp: View_constructor_def Let_def Compiler_getInstance_def
      split: prod.splits option.splits)

lemma View_getInstance_new:
  "View_getInstance ext i r st = (v, st') \<Longrightarrow>
     View_instance st' = Some v \<and>
     (\<forall>c. Compiler_instance st = Some c \<longrightarrow> Compiler_instance st' = Some c)"
  by (auto simp: View_getInstance_def Let_def split: option.splits prod.splits
      dest: View_constructor_statics)

lemma View_getInstance_old:
  "View_instance st = Some v \<Longrightarrow> View_getInstance ext i r st = (v, st)"
  by (simp add: View_getInstance_def)

text \<open>Once a static field holds an instance, every later call of its class returns it.\<close>

lemma calls_Compiler_held:
  "Compiler_instance st = Some c \<Longrightarrow> j < length cs \<Longrightarrow> \<not> is_ViewCall (cs ! j) \<Longrightarrow>
     calls cs st ! j = CompilerInst c"
proof (induction cs arbitrary: st j)
  case Nil
  then show ?case by simp
next
  case (Cons a cs)
  obtain r st' where step: "getInstance a st = (r, st')"
    by (cases "getInstance a st")
  have held: "Compiler_instance st' = Some c"
    using step Cons.prems(1)
    by (cases a) (auto simp: Compiler_getInstance_old split: prod.splits
        dest: View_getInstance_new)
  show ?case
  proof (cases j)
    case 0
    with Cons.prems step show ?thesis
      by (cases a) (auto simp: Compiler_getInstance_old)
  next
    case (Suc k)
    with Cons.prems have "calls cs st' ! k = CompilerInst c"
      using Cons.IH [OF held, of k] by simp
    with Suc step show ?thesis by simp
  qed
qed

lemma calls_View_held:
  "View_instance st = Some v \<Longrightarrow> j < length cs \<Longrightarrow> is_ViewCall (cs ! j) \<Longrightarrow>
     calls cs st ! j = ViewInst v"
proof (induction cs arbitrary: st j)
  case Nil
  then show ?case by simp
next
  case (Cons a cs)
  obtain r st' where step: "getInstance a st = (r, st')"
    by (cases "getInstance a st")
  have held: "View_instance st' = Some v"
    using step Cons.prems(1)
    by (cases a) (auto simp: View_getInstance_old split: prod.splits
        dest: Compiler_getInstance_new)
  show ?case
  proof (cases j)
    case 0
    with Cons.prems step show ?thesis
      by (cases a) (auto simp: View_getInstance_old)
  next
    case (Suc k)
    with Cons.prems have "calls cs st' ! k = ViewInst v"
      using Cons.IH [OF held, of k] by simp
    with Suc step show ?thesis by simp
  qed
qed

lemma calls_same_instance:
  "i < j \<Longrightarrow> j < length cs \<Longrightarrow> is_ViewCall (cs ! i) = is_ViewCall (cs ! j) \<Longrightarrow>
     calls cs st ! i = calls cs st ! j"
proof (induction cs arbitrary: st i j)
  case Nil
  then show ?case by simp
next
  case (Cons a cs)
  obtain r st' where step: "getInstance a st = (r, st')"
    by (cases "getInstance a st")
  obtain k where j: "j = Suc k"
    using Cons.prems(1) by (cases j) auto
  show ?case
  proof (cases i)
    case 0
    show ?thesis
    proof (cases a)
      case (CompilerCall p f rg b)
      then obtain c where c: "Compiler_getInstance p f rg b st = (c, st')" "r = CompilerInst c"
        using step by (auto split: prod.splits)
      have "Compiler_instance st' = Some c"
        using c(1) by (simp add: Compiler_getInstance_new)
      moreover have "\<not> is_ViewCall (cs ! k)"
        using Cons.prems(3) 0 j CompilerCall by simp
      ultimately have "calls cs st' ! k = CompilerInst c"
        using Cons.prems(2) j by (simp add: calls_Compiler_held)
      then show ?thesis
        using 0 j step c(2) by simp
    next
      case (ViewCall ext inj rg)
      then obtain v where v: "View_getInstance ext inj rg st = (v, st')" "r = ViewInst v"
        using step by (auto split: prod.splits)
      have "View_instance st' = Some v"
        using v(1) by (simp add: View_getInstance_new)
      moreover have "is_ViewCall (cs ! k)"
        using Cons.prems(3) 0 j ViewCall by simp
      ultimately have "calls cs st' ! k = ViewInst v"
        using Cons.prems(2) j by (simp add: calls_View_held)
      then show ?thesis
        using 0 j step v(2) by simp
    qed
  next
    case (Suc i')
    with Cons.prems j have "calls cs st' ! i' = calls cs st' ! k"
      using Cons.IH [of i' k st'] by simp
    with Suc j step show ?thesis by simp
  qed
qed

text \<open>
  C10.  \<open>View.getInstance\<close> and \<open>Compiler.getInstance\<close> are singletons: in any sequence
  of calls of the two, with any arguments and from any static state, two calls of the same
  class return the same instance, so each returns what the first call of its class
  returned, whatever its own arguments are.
\<close>

theorem getInstance_singleton:
  assumes "i < j" and "j < length cs" and "is_ViewCall (cs ! i) = is_ViewCall (cs ! j)"
  shows "calls cs st ! i = calls cs st ! j"
  using assms by (rule calls_same_instance)

theorem getInstance_singleton_witness:
  "calls [ViewCall demo_externals 0 demo_registry,
          CompilerCall demo_parser demo_factory empty_registry (Some demo_builder),
          ViewCall demo_externals 7 empty_registry,
          CompilerCall demo_parser demo_factory demo_registry None] no_statics ! 0
   = calls [ViewCall demo_externals 0 demo_registry,
          CompilerCall demo_parser demo_factory empty_registry (Some demo_builder),
          ViewCall demo_externals 7 empty_registry,
          CompilerCall demo_parser demo_factory demo_registry None] no_statics ! 2
   \<and> calls [ViewCall demo_externals 0 demo_registry,
          CompilerCall demo_parser demo_factory empty_registry (Some demo_builder),
          ViewCall demo_externals 7 empty_registry,
          CompilerCall demo_parser demo_factory demo_registry None] no_statics ! 1
   = calls [ViewCall demo_externals 0 demo_registry,
          CompilerCall demo_parser demo_factory empty_registry (Some demo_builder),
          ViewCall demo_externals 7 empty_registry,
          CompilerCall demo_parser demo_factory demo_registry None] no_statics ! 3"
  using getInstance_singleton [of 0 2 "[ViewCall demo_externals 0 demo_registry,
          CompilerCall demo_parser demo_factory empty_registry (Some demo_builder),
          ViewCall demo_externals 7 empty_registry,
          CompilerCall demo_parser demo_factory demo_registry None]" no_statics]
    getInstance_singleton [of 1 3 "[ViewCall demo_externals 0 demo_registry,
          CompilerCall demo_parser demo_factory empty_registry (Some demo_builder),
          ViewCall demo_externals 7 empty_registry,
          CompilerCall demo_parser demo_factory demo_registry None]" no_statics]
  by simp

section \<open>Bootstrap without an entry component\<close>

text \<open>
  C8.  When the registry has no entry component, \<open>bootstrap\<close> fails with an
  \<open>EntryComponentNotRegisteredError\<close> and the compiler is not invoked: the result is
  the same for every compiler of the View, every store and every bound on the
  compilation, also the bound 0 under which any call of \<open>compile\<close> would not return.  No
  View Reference tree is produced: the View stays as it was.
\<close>

theorem bootstrap_no_entry_component:
  assumes "getEntryComponent (v_componentsRegistry V) = None"
  shows "bootstrap n V appHost h = Some (Inl EntryComponentNotRegisteredError) \<and>
         bootstrap 0 (V\<lparr>v_compiler := C\<rparr>) appHost h' = Some (Inl EntryComponentNotRegisteredError)"
  using assms by (simp add: bootstrap_def assertEntryComponentRegistered_def)

theorem bootstrap_no_entry_component_witness:
  "getEntryComponent (v_componentsRegistry
      (fst (View_getInstance demo_externals 0 empty_registry no_statics))) = None \<and>
   bootstrap 3 (fst (View_getInstance demo_externals 0 empty_registry no_statics)) 100 empty_heap
     = Some (Inl EntryComponentNotRegisteredError)"
proof -
  have none: "getEntryComponent (v_componentsRegistry
      (fst (View_getInstance demo_externals 0 empty_registry no_statics))) = None"
    by (simp add: View_getInstance_def View_constructor_def Compiler_getInstance_def
        no_statics_def empty_registry_def Let_def)
  from bootstrap_no_entry_component [OF none, of 3 100 empty_heap] none
  show ?thesis by simp
qed

section \<open>Trees\<close>

lemma preorder_list_append: "preorder_list (ts @ us) = preorder_list ts @ preorder_list us"
  by (induction ts) auto

lemma add_node_graft:
  "add_node d p t = graft (TreeNode d []) p t"
  "add_nodes d p ts = graft_list (TreeNode d []) p ts"
  by (induction t and ts rule: preorder_preorder_list.induct) (auto split: option.splits)

lemma graft_None:
  "p \<notin> set (preorder t) \<Longrightarrow> graft s p t = None"
  "p \<notin> set (preorder_list ts) \<Longrightarrow> graft_list s p ts = None"
  by (induction s p t and s p ts rule: graft_graft_list.induct) auto

lemma graft_Some:
  "p \<in> set (preorder t) \<Longrightarrow> \<exists>t'. graft s p t = Some t'"
  "p \<in> set (preorder_list ts) \<Longrightarrow> \<exists>ts'. graft_list s p ts = Some ts'"
  by (induction t and ts rule: preorder_preorder_list.induct) (auto split: option.splits)

lemma graft_data: "graft s p t = Some t' \<Longrightarrow> data t' = data t"
  by (cases t) (auto split: if_splits option.splits)

lemma graft_set:
  "graft s p t = Some t' \<Longrightarrow> set (preorder t') = set (preorder t) \<union> set (preorder s)"
  "graft_list s p ts = Some ts' \<Longrightarrow>
     set (preorder_list ts') = set (preorder_list ts) \<union> set (preorder s)"
proof (induction t and ts arbitrary: t' and ts' rule: preorder_preorder_list.induct)
  case (1 x ts)
  then show ?case
    by (fastforce simp: preorder_list_append split: option.splits if_splits)
next
  case 2
  then show ?case by simp
next
  case (3 t ts)
  then show ?case
    by (fastforce split: option.splits)
qed

lemma graft_length:
  "graft s p t = Some t' \<Longrightarrow> length (preorder t') = length (preorder t) + length (preorder s)"
  "graft_list s p ts = Some ts' \<Longrightarrow>
     length (preorder_list ts') = length (preorder_list ts) + length (preorder s)"
proof (induction t and ts arbitrary: t' and ts' rule: preorder_preorder_list.induct)
  case (1 x ts)
  then show ?case
    by (fastforce simp: preorder_list_append split: option.splits if_splits)
next
  case 2
  then show ?case by simp
next
  case (3 t ts)
  then show ?case
    by (fastforce split: option.splits)
qed

lemma graft_list_snoc:
  "d \<notin> set (preorder_list ts) \<Longrightarrow>
     graft_list s d (ts @ [u]) = (case graft s d u of None \<Rightarrow> None | Some u' \<Rightarrow> Some (ts @ [u']))"
  by (induction ts) (auto simp: graft_None split: option.splits)

lemma graft_graft:
  "graft (TreeNode d us) p t = Some t1 \<Longrightarrow> d \<notin> set (preorder t) \<Longrightarrow>
     graft s d t1 = graft (TreeNode d (us @ [s])) p t"
  "graft_list (TreeNode d us) p ts = Some ts1 \<Longrightarrow> d \<notin> set (preorder_list ts) \<Longrightarrow>
     graft_list s d ts1 = graft_list (TreeNode d (us @ [s])) p ts"
proof (induction t and ts arbitrary: t1 and ts1 rule: preorder_preorder_list.induct)
  case (1 x ts)
  show ?case
  proof (cases "x = p")
    case True
    with "1.prems" show ?thesis
      by (auto simp: graft_list_snoc)
  next
    case False
    with "1.prems" "1.IH" show ?thesis
      by (auto split: option.splits)
  qed
next
  case 2
  then show ?case by simp
next
  case (3 t ts)
  note Cons = 3
  show ?case
  proof (cases "graft (TreeNode d us) p t")
    case None
    then have "p \<notin> set (preorder t)"
      using graft_Some(1) [of p t "TreeNode d us"] by auto
    with None Cons(3,4) Cons(2) show ?thesis
      by (auto simp: graft_None split: option.splits)
  next
    case (Some t')
    then have "p \<in> set (preorder t)"
      using graft_None(1) [of p t "TreeNode d us"] by auto
    then obtain t2 where "graft (TreeNode d (us @ [s])) p t = Some t2"
      using graft_Some(1) [of p t "TreeNode d (us @ [s])"] by auto
    with Some Cons(3,4) Cons(1) [of t'] show ?thesis
      by auto
  qed
qed

lemma preorder_label:
  "preorder (label n (t :: 'a tree_node)) = [n..<n + tsize t]"
  "preorder_list (label_list n (ts :: 'a tree_node list)) = [n..<n + tsize_list ts]"
proof (induction n t and n ts rule: label_label_list.induct)
  case (1 n x ts)
  have "[n..<n + Suc (tsize_list ts)] = n # [Suc n..<Suc n + tsize_list ts]"
    using upt_rec [of n "n + Suc (tsize_list ts)"] by simp
  with 1 show ?case by simp
next
  case (2 n)
  then show ?case by simp
next
  case (3 n t ts)
  then show ?case
    using upt_add_eq_append [of n "n + tsize t" "tsize_list ts"] by (simp add: add.assoc)
qed

lemma graft_all_root: "graft_all ss d (TreeNode d us) = Some (TreeNode d (us @ ss))"
  by (induction ss arbitrary: us) auto

lemma graft_all_under:
  "graft (TreeNode d us) p t = Some t1 \<Longrightarrow> d \<notin> set (preorder t) \<Longrightarrow>
     graft_all ss d t1 = graft (TreeNode d (us @ ss)) p t"
proof (induction ss arbitrary: us t1)
  case Nil
  then show ?case by simp
next
  case (Cons s ss)
  have "p \<in> set (preorder t)"
    using Cons.prems(1) graft_None(1) [of p t "TreeNode d us"] by auto
  then obtain t2 where t2: "graft (TreeNode d (us @ [s])) p t = Some t2"
    using graft_Some(1) [of p t "TreeNode d (us @ [s])"] by auto
  then have "graft s d t1 = Some t2"
    using graft_graft(1) [OF Cons.prems] by simp
  then show ?case
    using Cons.IH [OF t2 Cons.prems(2)] by simp
qed

lemma buildBindings_built:
  "buildBindings bb rs v vn = Inr bs \<Longrightarrow>
     list_all2 (\<lambda>r b. case bb of None \<Rightarrow> False | Some build \<Rightarrow> build r v vn = Inr b) rs bs"
  by (induction rs arbitrary: bs) (auto split: option.splits sum.splits)

lemma buildViewNode_Inr:
  "buildViewNode C a h = Inr (v, h1) \<Longrightarrow>
     v = length (viewNodes h) \<and>
     (\<exists>bs. buildBindings (c_bindingBuilder C) (ast_bindings a) v (fresh_node a) = Inr bs \<and>
           h1 = h\<lparr>viewNodes := viewNodes h @ [(fresh_node a)\<lparr>vn_bindings := bs\<rparr>]\<rparr>)"
  by (auto simp: buildViewNode_def Let_def fresh_node_def split: sum.splits)

lemma mirrors_mono:
  "mirrors C h a t \<Longrightarrow> mirrors C (h\<lparr>viewNodes := viewNodes h @ vns\<rparr>) a t"
proof (induction C h a t rule: mirrors.induct)
  case (1 C h a cs v ts)
  from "1.prems" have kids: "list_all2 (mirrors C h) cs ts" by simp
  have "list_all2 (mirrors C (h\<lparr>viewNodes := viewNodes h @ vns\<rparr>)) cs ts"
    using kids "1.IH" by (rule list.rel_mono_strong)
  with "1.prems" show ?case
    by (simp add: nth_append)
qed

lemma appended_trans:
  "appended h h1 j \<Longrightarrow> appended h1 h2 k \<Longrightarrow> appended h h2 (j + k)"
  unfolding appended_def
  by (elim exE conjE) (rule_tac x = "vns @ vnsa" in exI, auto)

lemma appended_mirrors: "appended h h' k \<Longrightarrow> mirrors C h a t \<Longrightarrow> mirrors C h' a t"
  by (auto simp: appended_def mirrors_mono)

lemma appended_length: "appended h h' k \<Longrightarrow> length (viewNodes h') = length (viewNodes h) + k"
  by (auto simp: appended_def)

lemma getViewNodes_general:
  "getViewNodes C ast parent vt h = Inr (t', h') \<Longrightarrow>
     (\<forall>t. vt = Some t \<longrightarrow> set (preorder t) \<subseteq> {..<length (viewNodes h)}) \<Longrightarrow>
     appended h h' (tsize ast) \<and>
     mirrors C h' ast (label (length (viewNodes h)) ast) \<and>
     (if vt = None \<and> parent = None then t' = label (length (viewNodes h)) ast
      else \<exists>t p. vt = Some t \<and> parent = Some p \<and>
             graft (label (length (viewNodes h)) ast) p t = Some t')"
  "getViewNodes_forEach C cs vn t h = Inr (t', h') \<Longrightarrow>
     set (preorder t) \<subseteq> {..<length (viewNodes h)} \<Longrightarrow>
     appended h h' (tsize_list cs) \<and>
     list_all2 (mirrors C h') cs (label_list (length (viewNodes h)) cs) \<and>
     graft_all (label_list (length (viewNodes h)) cs) vn t = Some t'"
proof (induction C ast parent vt h and C cs vn t h arbitrary: t' h' and t' h'
    rule: getViewNodes_getViewNodes_forEach.induct)
  case (1 C a cs parent vt h)
  let ?n = "length (viewNodes h)"
  from "1.prems"(1) obtain v h1 where b: "buildViewNode C a h = Inr (v, h1)"
    by (auto split: sum.splits)
  from buildViewNode_Inr [OF b] obtain bs where v: "v = ?n"
    and bs: "buildBindings (c_bindingBuilder C) (ast_bindings a) ?n (fresh_node a) = Inr bs"
    and h1: "h1 = h\<lparr>viewNodes := viewNodes h @ [(fresh_node a)\<lparr>vn_bindings := bs\<rparr>]\<rparr>"
    by auto
  have app1: "appended h h1 1"
    unfolding appended_def h1
    by (rule exI [of _ "[(fresh_node a)\<lparr>vn_bindings := bs\<rparr>]"]) (simp add: fresh_node_def)
  from "1.prems"(1) b obtain t1 where
    t1: "(if vt = None \<and> parent = None then Inr (TreeNode v [])
          else (case vt of None \<Rightarrow> Inl TypeError | Some t \<Rightarrow> tree_add v parent t)) = Inr t1"
    and each: "getViewNodes_forEach C cs v t1 h1 = Inr (t', h')"
    by (auto split: sum.splits)
  have t1_fresh: "set (preorder t1) \<subseteq> {..<length (viewNodes h1)}"
  proof (cases "vt = None \<and> parent = None")
    case True
    with t1 v h1 show ?thesis by auto
  next
    case False
    with t1 obtain t p where tp: "vt = Some t" "parent = Some p" "add_node v p t = Some t1"
      by (auto simp: tree_add_def split: option.splits if_splits)
    then have "set (preorder t1) = set (preorder t) \<union> {v}"
      using graft_set(1) [of "TreeNode v []" p t t1] by (simp add: add_node_graft)
    with "1.prems"(2) tp v h1 show ?thesis by auto
  qed
  from "1.IH" [OF b refl t1 each t1_fresh]
  have app2: "appended h1 h' (tsize_list cs)"
    and kids: "list_all2 (mirrors C h') cs (label_list (length (viewNodes h1)) cs)"
    and gr: "graft_all (label_list (length (viewNodes h1)) cs) v t1 = Some t'"
    by auto
  have len1: "length (viewNodes h1) = Suc ?n"
    using h1 by simp
  have app: "appended h h' (tsize (TreeNode a cs))"
    using appended_trans [OF app1 app2] by simp
  have root: "mirrors C h1 (TreeNode a []) (TreeNode ?n [])"
    using bs h1 buildBindings_built [OF bs] by (simp add: fresh_node_def)
  have "mirrors C h' (TreeNode a []) (TreeNode ?n [])"
    using appended_mirrors [OF app2 root] .
  with kids len1 have mir: "mirrors C h' (TreeNode a cs) (label ?n (TreeNode a cs))"
    by simp
  have shape: "if vt = None \<and> parent = None then t' = label ?n (TreeNode a cs)
      else \<exists>t p. vt = Some t \<and> parent = Some p \<and>
             graft (label ?n (TreeNode a cs)) p t = Some t'"
  proof (cases "vt = None \<and> parent = None")
    case True
    with t1 have "t1 = TreeNode v []" by simp
    with gr v len1 True show ?thesis
      by (simp add: graft_all_root)
  next
    case False
    with t1 obtain t p where tp: "vt = Some t" "parent = Some p" "add_node v p t = Some t1"
      by (auto simp: tree_add_def split: option.splits if_splits)
    have g1: "graft (TreeNode v []) p t = Some t1"
      using tp(3) by (simp add: add_node_graft)
    have "v \<notin> set (preorder t)"
      using "1.prems"(2) tp(1) v by auto
    from graft_all_under [OF g1 this, of "label_list (Suc ?n) cs"] gr len1
    have "graft (TreeNode v (label_list (Suc ?n) cs)) p t = Some t'" by simp
    with tp v False show ?thesis by simp
  qed
  from app mir shape show ?case by simp
next
  case (2 C vn t h)
  then show ?case by (simp add: appended_def)
next
  case (3 C c cs vn t h)
  let ?n = "length (viewNodes h)"
  from "3.prems"(1) obtain t1 h1 where
    one: "getViewNodes C c (Some vn) (Some t) h = Inr (t1, h1)"
    and rest: "getViewNodes_forEach C cs vn t1 h1 = Inr (t', h')"
    by (auto split: sum.splits)
  from "3.IH"(1) [OF one] "3.prems"(2)
  have app1: "appended h h1 (tsize c)"
    and mir1: "mirrors C h1 c (label ?n c)"
    and g1: "graft (label ?n c) vn t = Some t1"
    by auto
  have len1: "length (viewNodes h1) = ?n + tsize c"
    using appended_length [OF app1] .
  have "set (preorder t1) = set (preorder t) \<union> set (preorder (label ?n c))"
    using graft_set(1) [OF g1] .
  with "3.prems"(2) len1 have fresh1: "set (preorder t1) \<subseteq> {..<length (viewNodes h1)}"
    by (auto simp: preorder_label)
  from "3.IH"(2) [OF one refl rest fresh1]
  have app2: "appended h1 h' (tsize_list cs)"
    and kids: "list_all2 (mirrors C h') cs (label_list (length (viewNodes h1)) cs)"
    and gr: "graft_all (label_list (length (viewNodes h1)) cs) vn t1 = Some t'"
    by auto
  have "appended h h' (tsize_list (c # cs))"
    using appended_trans [OF app1 app2] by simp
  moreover have "mirrors C h' c (label ?n c)"
    using appended_mirrors [OF app2 mir1] .
  ultimately show ?case
    using kids gr g1 len1 by simp
qed

section \<open>The View Node tree\<close>

lemma getViewNodes_root:
  assumes "getViewNodes C ast None None h = Inr (t, h')"
  shows "t = label (length (viewNodes h)) ast" and "appended h h' (tsize ast)"
    and "mirrors C h' ast t"
  using getViewNodes_general(1) [OF assms] by auto

lemma getViewNodes_no_builder:
  "c_bindingBuilder C = None \<Longrightarrow>
     (vt = None \<and> parent = None) \<or> (\<exists>t p. vt = Some t \<and> parent = Some p \<and> p \<in> set (preorder t)) \<Longrightarrow>
     (if \<exists>a \<in> set (preorder ast). ast_bindings a \<noteq> []
      then getViewNodes C ast parent vt h = Inl TypeError
      else \<exists>t' h'. getViewNodes C ast parent vt h = Inr (t', h') \<and>
             (\<forall>t. vt = Some t \<longrightarrow> set (preorder t) \<subseteq> set (preorder t')))"
  "c_bindingBuilder C = None \<Longrightarrow> vn \<in> set (preorder t) \<Longrightarrow>
     (if \<exists>a \<in> set (preorder_list cs). ast_bindings a \<noteq> []
      then getViewNodes_forEach C cs vn t h = Inl TypeError
      else \<exists>t' h'. getViewNodes_forEach C cs vn t h = Inr (t', h') \<and>
             set (preorder t) \<subseteq> set (preorder t'))"
proof (induction ast and cs arbitrary: parent vt h and vn t h rule: preorder_preorder_list.induct)
  case (1 a cs)
  let ?n = "length (viewNodes h)"
  show ?case
  proof (cases "ast_bindings a")
    case (Cons r rs)
    with "1.prems"(1) have "buildViewNode C a h = Inl TypeError"
      by (simp add: buildViewNode_def)
    with Cons show ?thesis by simp
  next
    case Nil
    then obtain h1 where b: "buildViewNode C a h = Inr (?n, h1)"
      by (simp add: buildViewNode_def)
    obtain t1 where t1: "(if vt = None \<and> parent = None then Inr (TreeNode ?n [])
          else (case vt of None \<Rightarrow> Inl TypeError | Some t \<Rightarrow> tree_add ?n parent t)) = Inr t1"
      and in1: "?n \<in> set (preorder t1)"
      and sub1: "\<forall>t. vt = Some t \<longrightarrow> set (preorder t) \<subseteq> set (preorder t1)"
    proof (cases "vt = None \<and> parent = None")
      case True
      then show ?thesis using that [of "TreeNode ?n []"] by simp
    next
      case False
      with "1.prems"(2) obtain t p where tp: "vt = Some t" "parent = Some p" "p \<in> set (preorder t)"
        by auto
      from graft_Some(1) [OF tp(3), of "TreeNode ?n []"] obtain t1
        where g: "graft (TreeNode ?n []) p t = Some t1" by auto
      from graft_set(1) [OF g] have "set (preorder t1) = set (preorder t) \<union> {?n}" by simp
      with g tp show ?thesis
        using that [of t1] by (auto simp: tree_add_def add_node_graft)
    qed
    from "1.IH" [OF "1.prems"(1) in1, of h1] Nil b t1 sub1 show ?thesis
      by (auto split: if_splits)
  qed
next
  case 2
  then show ?case by simp
next
  case (3 c cs)
  have par: "(Some t = None \<and> Some vn = None) \<or>
      (\<exists>t' p. Some t = Some t' \<and> Some vn = Some p \<and> p \<in> set (preorder t'))"
    using "3.prems"(2) by simp
  note one = "3.IH"(1) [OF "3.prems"(1) par, of h]
  show ?case
  proof (cases "\<exists>a \<in> set (preorder c). ast_bindings a \<noteq> []")
    case True
    with one show ?thesis by auto
  next
    case False
    with one obtain t1 h1 where r1: "getViewNodes C c (Some vn) (Some t) h = Inr (t1, h1)"
      and sub1: "set (preorder t) \<subseteq> set (preorder t1)"
      by auto
    then have "vn \<in> set (preorder t1)"
      using "3.prems"(2) by auto
    from "3.IH"(2) [OF "3.prems"(1) this, of h1] False r1 sub1 show ?thesis
      by (auto split: if_splits)
  qed
qed

text \<open>
  C9.  The View Node tree that \<open>_getViewNodes\<close> builds from a Template AST mirrors it:
  one View Node per AST node (as many new View Nodes in the store as the AST has nodes,
  the tree holding each of their addresses once, in pre-order), the same parent/child
  relationships and the same order among siblings, and every View Node with the element and
  the selector of its AST node and, per raw binding of that node and in order, the Binding
  that the binding builder built for it.  The View Nodes that existed before are untouched.
\<close>

theorem getViewNodes_structure_preserving:
  assumes "getViewNodes C ast None None h = Inr (t, h')"
  shows "mirrors C h' ast t \<and>
         preorder t = [length (viewNodes h)..<length (viewNodes h) + tsize ast] \<and>
         length (viewNodes h') = length (viewNodes h) + tsize ast \<and>
         take (length (viewNodes h)) (viewNodes h') = viewNodes h"
proof -
  note r = getViewNodes_root [OF assms]
  from r(2) have "length (viewNodes h') = length (viewNodes h) + tsize ast"
    and "take (length (viewNodes h)) (viewNodes h') = viewNodes h"
    by (auto simp: appended_def)
  with r(1,3) show ?thesis
    by (simp add: preorder_label)
qed

theorem getViewNodes_structure_preserving_witness:
  "getViewNodes demo_compiler demo_ast None None empty_heap
     = Inr (TreeNode 0 [TreeNode 1 [TreeNode 2 []], TreeNode 3 []], demo_ast_heap) \<and>
   mirrors demo_compiler demo_ast_heap demo_ast
     (TreeNode 0 [TreeNode 1 [TreeNode 2 []], TreeNode 3 []]) \<and>
   length (viewNodes demo_ast_heap) = tsize demo_ast"
proof -
  have run: "getViewNodes demo_compiler demo_ast None None empty_heap
     = Inr (TreeNode 0 [TreeNode 1 [TreeNode 2 []], TreeNode 3 []], demo_ast_heap)"
    by (simp add: demo_ast_def demo_compiler_def demo_builder_def empty_heap_def
        demo_ast_heap_def buildViewNode_def tree_add_def)
  from getViewNodes_structure_preserving [OF run] run show ?thesis
    by (simp add: empty_heap_def)
qed

lemma compile_no_builder:
  assumes "c_bindingBuilder C = None"
    and "c_componentFactory C component host = Inr componentRef"
    and "c_parser C (cr_template componentRef) host = Inr ast"
    and "\<exists>a \<in> set (preorder ast). ast_bindings a \<noteq> []"
  shows "compile (Suc n) C component host h = Some (Inl TypeError)"
proof -
  have "getViewNodes C ast None None h = Inl TypeError"
    using getViewNodes_no_builder(1) [OF assms(1), of None None ast h] assms(4) by simp
  then show ?thesis
    using assms(2,3) by (simp add: compile_def compileViewRef_setup_def)
qed

text \<open>
  C2.  The View constructor passes no binding builder to \<open>Compiler.getInstance\<close>.  When
  no Compiler instance exists yet, the Compiler that the View creates has an \<open>undefined\<close>
  binding builder, and compiling with it a component whose Template AST has a node with
  at least one raw binding fails with a \<open>TypeError\<close> instead of producing View Nodes,
  whatever depth of compilation is allowed.
\<close>

theorem View_compiler_without_binding_builder:
  assumes "Compiler_instance st = None"
    and "View_constructor ext rootInjector componentsRegistry st = (V, st')"
    and "c_componentFactory (v_compiler V) component host = Inr componentRef"
    and "c_parser (v_compiler V) (cr_template componentRef) host = Inr ast"
    and "\<exists>a \<in> set (preorder ast). ast_bindings a \<noteq> []"
  shows "c_bindingBuilder (v_compiler V) = None \<and>
         compile (Suc n) (v_compiler V) component host h = Some (Inl TypeError)"
proof -
  have "c_bindingBuilder (v_compiler V) = None"
    using assms(1,2)
    by (auto simp: View_constructor_def Compiler_getInstance_def Let_def)
  with compile_no_builder [OF this assms(3,4,5)] show ?thesis by simp
qed

theorem View_compiler_without_binding_builder_witness:
  "Compiler_instance no_statics = None \<and>
   c_bindingBuilder (v_compiler (fst (View_constructor demo_externals 0 demo_registry no_statics)))
     = None \<and>
   compile 1 (v_compiler (fst (View_constructor demo_externals 0 demo_registry no_statics)))
     (Some 1) 100 empty_heap = Some (Inl TypeError)"
proof -
  obtain V st' where V: "View_constructor demo_externals 0 demo_registry no_statics = (V, st')"
    by (cases "View_constructor demo_externals 0 demo_registry no_statics")
  have C: "v_compiler V = demo_compiler\<lparr>c_bindingBuilder := None\<rparr>"
    using V by (auto simp: View_constructor_def Compiler_getInstance_def Let_def
        no_statics_def demo_externals_def demo_compiler_def)
  have none: "Compiler_instance no_statics = None"
    by (simp add: no_statics_def)
  have f: "c_componentFactory (v_compiler V) (Some 1) 100
      = Inr \<lparr>cr_instance = 1, cr_selector = ''child'', cr_template = ''<p>{{ title }}</p>'',
             cr_hostElement = 100\<rparr>"
    by (simp add: C demo_compiler_def demo_factory_def)
  have p: "c_parser (v_compiler V) (cr_template \<lparr>cr_instance = 1, cr_selector = ''child'',
        cr_template = ''<p>{{ title }}</p>'', cr_hostElement = 100\<rparr>) 100
      = Inr (TreeNode \<lparr>ast_element = 100, ast_componentSelector = Some ''child'',
                        ast_bindings = [], ast_directive = None\<rparr>
              [TreeNode \<lparr>ast_element = 100 + 1, ast_componentSelector = None,
                         ast_bindings = [''title''], ast_directive = None\<rparr> []])"
    by (simp add: C demo_compiler_def demo_parser_def)
  have b: "\<exists>a \<in> set (preorder (TreeNode \<lparr>ast_element = 100, ast_componentSelector = Some ''child'',
                        ast_bindings = [], ast_directive = None\<rparr>
              [TreeNode \<lparr>ast_element = 100 + 1, ast_componentSelector = None,
                         ast_bindings = [''title''], ast_directive = None\<rparr> []])).
            ast_bindings a \<noteq> []"
    by simp
  from View_compiler_without_binding_builder [OF none V f p b, of 0 empty_heap] none V
  show ?thesis by simp
qed

section \<open>What a compilation does to the store\<close>

lemma visit_all_append:
  "visit_all n C v (xs @ ys) T h =
     (case visit_all n C v xs T h of
        None \<Rightarrow> None
      | Some (Inl e) \<Rightarrow> Some (Inl e)
      | Some (Inr (T1, h1)) \<Rightarrow> visit_all n C v ys T1 h1)"
  by (induction xs arbitrary: T h) (auto split: option.splits sum.splits)

lemma traverseDF_visit_all:
  "traverseDF n C v r t T h =
     (if r then visit_all n C v (preorder_list (children t)) T h
      else visit_all n C v (preorder t) T h)"
  "traverseDF_children n C v ts T h = visit_all n C v (preorder_list ts) T h"
proof (induction t and ts arbitrary: r T h and T h rule: preorder_preorder_list.induct)
  case (1 a cs)
  then show ?case
    by (auto simp: callback_def split: option.splits sum.splits)
next
  case 2
  then show ?case by simp
next
  case (3 c cs)
  then show ?case
    by (auto simp: visit_all_append split: option.splits sum.splits)
qed

lemma precedes_snoc: "x \<in> set xs \<Longrightarrow> precedes x y (xs @ [y])"
proof -
  assume x: "x \<in> set xs"
  then have "dropWhile (\<lambda>z. z \<noteq> x) (xs @ [y]) = dropWhile (\<lambda>z. z \<noteq> x) xs @ [y]"
    by (intro dropWhile_append1) auto
  moreover have "dropWhile (\<lambda>z. z \<noteq> x) xs \<noteq> []"
    using x by (auto simp: dropWhile_eq_Nil_conv)
  ultimately show ?thesis
    by (simp add: precedes_def)
qed

lemma precedes_append: "precedes x y xs \<Longrightarrow> precedes x y (xs @ zs)"
proof -
  assume p: "precedes x y xs"
  then have ne: "dropWhile (\<lambda>z. z \<noteq> x) xs \<noteq> []"
    by (cases "dropWhile (\<lambda>z. z \<noteq> x) xs") (auto simp: precedes_def)
  then obtain w where "w \<in> set xs" "\<not> w \<noteq> x"
    by (auto simp: dropWhile_eq_Nil_conv)
  then have "dropWhile (\<lambda>z. z \<noteq> x) (xs @ zs) = dropWhile (\<lambda>z. z \<noteq> x) xs @ zs"
    by (intro dropWhile_append1) auto
  with p ne show ?thesis
    by (auto simp: precedes_def)
qed

lemma children_subset: "set (preorder_list (children t)) \<subseteq> set (preorder t)"
  by (cases t) auto

lemma linked_preserved:
  assumes "linked C h i a"
    and "length (viewRefs h) \<le> length (viewRefs h')"
    and "\<forall>j. i \<le> j \<and> j < length (viewRefs h) \<longrightarrow> viewRefs h' ! j = viewRefs h ! j"
    and "viewNodes h' ! a = viewNodes h ! a"
    and "\<exists>evs. trace h' = trace h @ evs"
  shows "linked C h' i a"
proof (cases "truthy (vn_componentSelector (viewNodes h ! a))")
  case False
  with assms(1,4) show ?thesis by (simp add: linked_def)
next
  case True
  with assms(1) obtain c where c: "vn_viewRef (viewNodes h ! a) = Some c" "i < c"
    "c < length (viewRefs h)"
    "c_componentFactory C (resolve C (vn_componentSelector (viewNodes h ! a)))
        (vn_element (viewNodes h ! a)) = Inr (vr_componentRef (viewRefs h ! c))"
    "precedes (CompiledSet c) (CompiledSet i) (trace h)"
    by (auto simp: linked_def split: option.splits)
  from c(2,3) assms(3) have "viewRefs h' ! c = viewRefs h ! c" by simp
  moreover from assms(5) c(5) have "precedes (CompiledSet c) (CompiledSet i) (trace h')"
    by (auto simp: precedes_append)
  ultimately show ?thesis
    using True c assms(2,4) by (simp add: linked_def)
qed

lemma settled_preserved:
  assumes "settled C h i"
    and "i < length (viewRefs h)"
    and "length (viewNodes h) \<le> length (viewNodes h')"
    and "length (viewRefs h) \<le> length (viewRefs h')"
    and "\<forall>j. i \<le> j \<and> j < length (viewRefs h) \<longrightarrow> viewRefs h' ! j = viewRefs h ! j"
    and "\<forall>a \<in> set (preorder (vr_nodesTree (viewRefs h ! i))). viewNodes h' ! a = viewNodes h ! a"
    and "\<exists>evs. trace h' = trace h @ evs"
  shows "settled C h' i"
proof -
  let ?nt = "vr_nodesTree (viewRefs h ! i)"
  have same: "viewRefs h' ! i = viewRefs h ! i"
    using assms(2,5) by simp
  have root: "data ?nt \<in> set (preorder ?nt)"
    by (cases ?nt) simp
  have kids: "\<forall>a \<in> set (preorder_list (children ?nt)). linked C h' i a"
  proof
    fix a assume a: "a \<in> set (preorder_list (children ?nt))"
    with assms(1) have l: "linked C h i a" by (simp add: settled_def)
    from a assms(6) have e: "viewNodes h' ! a = viewNodes h ! a"
      using children_subset [of ?nt] by auto
    from l assms(4,5) e assms(7) show "linked C h' i a"
      by (rule linked_preserved)
  qed
  from assms(1,3,6) root kids show ?thesis
    by (auto simp: settled_def same)
qed

lemma step_refl: "step C S h h"
  unfolding step_def by (auto intro: exI [of _ "[]"])

lemma step_trans:
  assumes 1: "step C S1 h h1" and 2: "step C S2 h1 h'"
    and S2: "S2 \<subseteq> {..<length (viewNodes h)}"
  shows "step C (S1 \<union> S2) h h'"
proof -
  from 1 have len1: "length (viewNodes h) \<le> length (viewNodes h1)"
      "length (viewRefs h) \<le> length (viewRefs h1)"
    and refs1: "\<forall>i < length (viewRefs h). viewRefs h1 ! i = viewRefs h ! i"
    and nodes1: "\<forall>a < length (viewNodes h). a \<notin> S1 \<longrightarrow> viewNodes h1 ! a = viewNodes h ! a"
    and new1: "\<forall>i. length (viewRefs h) \<le> i \<and> i < length (viewRefs h1) \<longrightarrow>
        settled C h1 i \<and>
        set (preorder (vr_nodesTree (viewRefs h1 ! i))) \<subseteq> {length (viewNodes h)..}"
    by (simp_all add: step_def)
  from 1 obtain ws1 where ws1: "trace h1 = trace h @ map CompiledSet ws1" "distinct ws1"
      "set ws1 = {length (viewRefs h)..<length (viewRefs h1)}"
    by (auto simp: step_def)
  from 2 have len2: "length (viewNodes h1) \<le> length (viewNodes h')"
      "length (viewRefs h1) \<le> length (viewRefs h')"
    and refs2: "\<forall>i < length (viewRefs h1). viewRefs h' ! i = viewRefs h1 ! i"
    and nodes2: "\<forall>a < length (viewNodes h1). a \<notin> S2 \<longrightarrow> viewNodes h' ! a = viewNodes h1 ! a"
    and new2: "\<forall>i. length (viewRefs h1) \<le> i \<and> i < length (viewRefs h') \<longrightarrow>
        settled C h' i \<and>
        set (preorder (vr_nodesTree (viewRefs h' ! i))) \<subseteq> {length (viewNodes h1)..}"
    by (simp_all add: step_def)
  from 2 obtain ws2 where ws2: "trace h' = trace h1 @ map CompiledSet ws2" "distinct ws2"
      "set ws2 = {length (viewRefs h1)..<length (viewRefs h')}"
    by (auto simp: step_def)
  have refs: "\<forall>i < length (viewRefs h). viewRefs h' ! i = viewRefs h ! i"
  proof (intro allI impI)
    fix i assume i: "i < length (viewRefs h)"
    then have "viewRefs h1 ! i = viewRefs h ! i"
      using refs1 by simp
    moreover have "viewRefs h' ! i = viewRefs h1 ! i"
      using i len1(2) refs2 by simp
    ultimately show "viewRefs h' ! i = viewRefs h ! i" by simp
  qed
  have nodes: "\<forall>a < length (viewNodes h). a \<notin> S1 \<union> S2 \<longrightarrow> viewNodes h' ! a = viewNodes h ! a"
  proof (intro allI impI)
    fix a assume a: "a < length (viewNodes h)" "a \<notin> S1 \<union> S2"
    then have "viewNodes h1 ! a = viewNodes h ! a"
      using nodes1 by simp
    moreover have "viewNodes h' ! a = viewNodes h1 ! a"
      using a len1(1) nodes2 by simp
    ultimately show "viewNodes h' ! a = viewNodes h ! a" by simp
  qed
  have new: "\<forall>i. length (viewRefs h) \<le> i \<and> i < length (viewRefs h') \<longrightarrow>
        settled C h' i \<and>
        set (preorder (vr_nodesTree (viewRefs h' ! i))) \<subseteq> {length (viewNodes h)..}"
  proof (intro allI impI)
    fix i assume i: "length (viewRefs h) \<le> i \<and> i < length (viewRefs h')"
    show "settled C h' i \<and>
        set (preorder (vr_nodesTree (viewRefs h' ! i))) \<subseteq> {length (viewNodes h)..}"
    proof (cases "i < length (viewRefs h1)")
      case True
      with i new1 have s1: "settled C h1 i"
        and n1: "set (preorder (vr_nodesTree (viewRefs h1 ! i))) \<subseteq> {length (viewNodes h)..}"
        by auto
      from s1 have in1: "set (preorder (vr_nodesTree (viewRefs h1 ! i))) \<subseteq> {..<length (viewNodes h1)}"
        by (simp add: settled_def)
      have keep: "\<forall>a \<in> set (preorder (vr_nodesTree (viewRefs h1 ! i))).
          viewNodes h' ! a = viewNodes h1 ! a"
      proof
        fix a assume a: "a \<in> set (preorder (vr_nodesTree (viewRefs h1 ! i)))"
        with n1 have "length (viewNodes h) \<le> a" by auto
        with S2 have "a \<notin> S2" by auto
        moreover from a in1 have "a < length (viewNodes h1)" by auto
        ultimately show "viewNodes h' ! a = viewNodes h1 ! a"
          using nodes2 by simp
      qed
      have "settled C h' i"
        using s1 True len2 _ keep
      proof (rule settled_preserved)
        show "\<forall>j. i \<le> j \<and> j < length (viewRefs h1) \<longrightarrow> viewRefs h' ! j = viewRefs h1 ! j"
          using refs2 by simp
        show "\<exists>evs. trace h' = trace h1 @ evs"
          using ws2(1) by blast
      qed
      moreover have "viewRefs h' ! i = viewRefs h1 ! i"
        using refs2 True by simp
      ultimately show ?thesis
        using n1 by simp
    next
      case False
      with i new2 have s2: "settled C h' i"
        and n2: "set (preorder (vr_nodesTree (viewRefs h' ! i))) \<subseteq> {length (viewNodes h1)..}"
        by auto
      from n2 len1(1) have "set (preorder (vr_nodesTree (viewRefs h' ! i))) \<subseteq> {length (viewNodes h)..}"
        by auto
      with s2 show ?thesis by simp
    qed
  qed
  have tr: "trace h' = trace h @ map CompiledSet (ws1 @ ws2)"
    using ws1(1) ws2(1) by simp
  have "distinct (ws1 @ ws2)"
    using ws1(2,3) ws2(2,3) by auto
  moreover have "set (ws1 @ ws2) = {length (viewRefs h)..<length (viewRefs h')}"
    using ws1(3) ws2(3) len1(2) len2(2) by auto
  ultimately have "\<exists>ws. trace h' = trace h @ map CompiledSet ws \<and> distinct ws \<and>
            set ws = {length (viewRefs h)..<length (viewRefs h')}"
    using tr by blast
  moreover have "length (viewNodes h) \<le> length (viewNodes h')"
    and "length (viewRefs h) \<le> length (viewRefs h')"
    using len1 len2 by simp_all
  ultimately show ?thesis
    unfolding step_def using refs nodes new by (intro conjI)
qed

lemma tree_post_refl: "tree_post t t h h"
  by (simp add: tree_post_def)

lemma tree_post_trans:
  "tree_post t t1 h h1 \<Longrightarrow> tree_post t1 t' h1 h' \<Longrightarrow>
     length (viewRefs h) \<le> length (viewRefs h1) \<Longrightarrow> length (viewRefs h1) \<le> length (viewRefs h') \<Longrightarrow>
     tree_post t t' h h'"
  by (auto simp: tree_post_def)

lemma setup_Inr:
  assumes run: "compileViewRef_setup C c host T P H h = Inr (v, nt, t1, h1)"
  shows "v = length (viewRefs h)"
    and "length (viewRefs h1) = Suc (length (viewRefs h))"
    and "\<forall>i < length (viewRefs h). viewRefs h1 ! i = viewRefs h ! i"
    and "\<exists>cref. c_componentFactory C c host = Inr cref \<and>
           viewRefs h1 ! v = \<lparr>vr_componentRef = cref, vr_nodesTree = nt,
             vr_renderHost = (if T = None \<and> P = None then Some host else None),
             vr_compiled = False\<rparr>"
    and "trace h1 = trace h"
    and "preorder nt = [length (viewNodes h)..<length (viewNodes h1)]"
    and "length (viewNodes h) < length (viewNodes h1)"
    and "\<forall>a < length (viewNodes h). viewNodes h1 ! a =
           (if H = Some a then (viewNodes h ! a)\<lparr>vn_viewRef := Some v\<rparr> else viewNodes h ! a)"
    and "\<forall>a. length (viewNodes h) \<le> a \<and> a < length (viewNodes h1) \<and> H \<noteq> Some a \<longrightarrow>
           vn_viewRef (viewNodes h1 ! a) = None"
    and "case T of None \<Rightarrow> P = None \<and> t1 = TreeNode v []
         | Some t \<Rightarrow> \<exists>p. P = Some p \<and> add_node v p t = Some t1"
proof -
  from run obtain cref where cref: "c_componentFactory C c host = Inr cref"
    by (auto simp: compileViewRef_setup_def split: sum.splits)
  from run cref obtain ast where ast: "c_parser C (cr_template cref) host = Inr ast"
    by (auto simp: compileViewRef_setup_def split: sum.splits)
  from run cref ast obtain nt' h0 where g: "getViewNodes C ast None None h = Inr (nt', h0)"
    by (auto simp: compileViewRef_setup_def split: sum.splits)
  define new where "new = \<lparr>vr_componentRef = cref, vr_nodesTree = nt',
      vr_renderHost = None, vr_compiled = False\<rparr>"
  define h2 where "h2 = h0\<lparr>viewRefs := viewRefs h0 @ [new]\<rparr>"
  define v' where "v' = length (viewRefs h0)"
  define lnk where "lnk =
      (if T = None \<and> P = None then Inr (TreeNode v' [], updateRenderHost v' host h2)
       else (case T of None \<Rightarrow> Inl TypeError
             | Some t \<Rightarrow> (case tree_add v' P t of Inl e \<Rightarrow> Inl e | Inr t' \<Rightarrow> Inr (t', h2))))"
  have "compileViewRef_setup C c host T P H h =
      (case lnk of Inl e \<Rightarrow> Inl (e, h2)
       | Inr (tree1, h3) \<Rightarrow>
           Inr (v', nt', tree1, (case H of None \<Rightarrow> h3 | Some n \<Rightarrow> setViewRef n v' h3)))"
    unfolding compileViewRef_setup_def Let_def new_def h2_def v'_def lnk_def
    using cref ast g by simp
  with run obtain h3 where link0: "lnk = Inr (t1, h3)"
    and res: "v = v'" "nt = nt'"
      "h1 = (case H of None \<Rightarrow> h3 | Some n \<Rightarrow> setViewRef n v' h3)"
    by (auto split: sum.splits)
  note link = link0 [unfolded lnk_def]
  from getViewNodes_root [OF g] have nt': "nt' = label (length (viewNodes h)) ast"
    and app: "appended h h0 (tsize ast)"
    by simp_all
  from app obtain vns where vns: "h0 = h\<lparr>viewNodes := viewNodes h @ vns\<rparr>"
      "length vns = tsize ast" "\<forall>vn \<in> set vns. vn_viewRef vn = None"
    by (auto simp: appended_def)
  have v': "v' = length (viewRefs h)"
    by (simp add: v'_def vns(1))
  have h3_nodes: "viewNodes h3 = viewNodes h @ vns"
    using link by (auto simp: updateRenderHost_def h2_def vns(1) split: if_splits option.splits sum.splits)
  have h3_trace: "trace h3 = trace h"
    using link by (auto simp: updateRenderHost_def h2_def vns(1) split: if_splits option.splits sum.splits)
  have h3_refs: "viewRefs h3 = viewRefs h @
      [new\<lparr>vr_renderHost := (if T = None \<and> P = None then Some host else None)\<rparr>]"
    using link
    by (auto simp: updateRenderHost_def h2_def vns(1) v' new_def
        split: if_splits option.splits sum.splits)
  have h1_nodes: "viewNodes h1 = (case H of None \<Rightarrow> viewNodes h @ vns
      | Some n \<Rightarrow> (viewNodes h @ vns)[n := ((viewNodes h @ vns) ! n)\<lparr>vn_viewRef := Some v'\<rparr>])"
    using res(3) h3_nodes by (auto simp: setViewRef_def split: option.splits)
  have h1_refs: "viewRefs h1 = viewRefs h3"
    using res(3) by (auto simp: setViewRef_def split: option.splits)
  have h1_trace: "trace h1 = trace h3"
    using res(3) by (auto simp: setViewRef_def split: option.splits)
  have len: "length (viewNodes h1) = length (viewNodes h) + tsize ast"
    using h1_nodes vns(2) by (auto split: option.splits)
  show "v = length (viewRefs h)"
    using res(1) v' by simp
  show "length (viewRefs h1) = Suc (length (viewRefs h))"
    using h1_refs h3_refs by simp
  show "\<forall>i < length (viewRefs h). viewRefs h1 ! i = viewRefs h ! i"
    using h1_refs h3_refs by (simp add: nth_append)
  show "\<exists>cref. c_componentFactory C c host = Inr cref \<and>
           viewRefs h1 ! v = \<lparr>vr_componentRef = cref, vr_nodesTree = nt,
             vr_renderHost = (if T = None \<and> P = None then Some host else None),
             vr_compiled = False\<rparr>"
    using cref h1_refs h3_refs res(1,2) v' by (intro exI [of _ cref]) (simp add: new_def)
  show "trace h1 = trace h"
    using h1_trace h3_trace by simp
  show "preorder nt = [length (viewNodes h)..<length (viewNodes h1)]"
    using res(2) nt' len by (simp add: preorder_label)
  show "length (viewNodes h) < length (viewNodes h1)"
    using len tsize_pos [of ast] by simp
  show "\<forall>a < length (viewNodes h). viewNodes h1 ! a =
           (if H = Some a then (viewNodes h ! a)\<lparr>vn_viewRef := Some v\<rparr> else viewNodes h ! a)"
    using h1_nodes res(1) by (auto simp: nth_append nth_list_update split: option.splits)
  show "\<forall>a. length (viewNodes h) \<le> a \<and> a < length (viewNodes h1) \<and> H \<noteq> Some a \<longrightarrow>
           vn_viewRef (viewNodes h1 ! a) = None"
  proof (intro allI impI)
    fix a assume a: "length (viewNodes h) \<le> a \<and> a < length (viewNodes h1) \<and> H \<noteq> Some a"
    then have "viewNodes h1 ! a = vns ! (a - length (viewNodes h))"
      using h1_nodes by (auto simp: nth_append nth_list_update split: option.splits)
    moreover have "a - length (viewNodes h) < length vns"
      using a len vns(2) by linarith
    ultimately show "vn_viewRef (viewNodes h1 ! a) = None"
      using vns(3) by simp
  qed
  show "case T of None \<Rightarrow> P = None \<and> t1 = TreeNode v []
         | Some t \<Rightarrow> \<exists>p. P = Some p \<and> add_node v p t = Some t1"
    using link res(1)
    by (auto simp: tree_add_def split: if_splits option.splits sum.splits)
qed

lemma edges_list_append: "edges_list (ts @ us) = edges_list ts @ edges_list us"
  by (induction ts) auto

lemma graft_edges:
  "graft s p t = Some t' \<Longrightarrow>
     set (edges t') = set (edges t) \<union> {(p, data s)} \<union> set (edges s)"
  "graft_list s p ts = Some ts' \<Longrightarrow>
     set (edges_list ts') = set (edges_list ts) \<union> {(p, data s)} \<union> set (edges s) \<and>
     map data ts' = map data ts"
proof (induction t and ts arbitrary: t' and ts' rule: preorder_preorder_list.induct)
  case (1 x ts)
  show ?case
  proof (cases "x = p")
    case True
    with "1.prems" show ?thesis
      by (auto simp: edges_list_append)
  next
    case False
    with "1.prems" obtain ts' where ts': "graft_list s p ts = Some ts'" "t' = TreeNode x ts'"
      by (auto split: option.splits)
    from "1.IH" [OF ts'(1)] have e: "set (edges_list ts') =
        set (edges_list ts) \<union> {(p, data s)} \<union> set (edges s)"
      and d: "map data ts' = map data ts"
      by simp_all
    have "map (\<lambda>t. (x, data t)) ts' = map (Pair x) (map data ts')"
      by simp
    also have "\<dots> = map (\<lambda>t. (x, data t)) ts"
      by (simp add: d)
    finally show ?thesis
      using e ts'(2) by auto
  qed
next
  case 2
  then show ?case by simp
next
  case (3 t ts)
  show ?case
  proof (cases "graft s p t")
    case None
    with "3.prems" obtain ts1 where ts1: "graft_list s p ts = Some ts1" "ts' = t # ts1"
      by (auto split: option.splits)
    from "3.IH"(2) [OF ts1(1)] ts1(2) show ?thesis by auto
  next
    case (Some t1)
    with "3.prems" have ts': "ts' = t1 # ts" by simp
    from "3.IH"(1) [OF Some] graft_data [OF Some] ts' show ?thesis by auto
  qed
qed

lemma add_node_facts:
  assumes "add_node d p t = Some t'"
  shows "data t' = data t"
    and "set (preorder t') = insert d (set (preorder t))"
    and "length (preorder t') = Suc (length (preorder t))"
    and "set (edges t') = insert (p, d) (set (edges t))"
proof -
  have g: "graft (TreeNode d []) p t = Some t'"
    using assms by (simp add: add_node_graft)
  show "data t' = data t" using graft_data [OF g] .
  show "set (preorder t') = insert d (set (preorder t))"
    using graft_set(1) [OF g] by simp
  show "length (preorder t') = Suc (length (preorder t))"
    using graft_length(1) [OF g] by simp
  show "set (edges t') = insert (p, d) (set (edges t))"
    using graft_edges(1) [OF g] by simp
qed

lemma node_post_later:
  assumes "node_post C h h1 a" and "step C S h1 h'" and "a \<notin> S"
    and "a < length (viewNodes h1)"
  shows "node_post C h h' a"
proof -
  from assms(2,3,4) have same: "viewNodes h' ! a = viewNodes h1 ! a"
    by (simp add: step_def)
  from assms(2) have refs: "\<forall>i < length (viewRefs h1). viewRefs h' ! i = viewRefs h1 ! i"
    and len: "length (viewRefs h1) \<le> length (viewRefs h')"
    by (simp_all add: step_def)
  show ?thesis
  proof (cases "truthy (vn_componentSelector (viewNodes h ! a))")
    case False
    with assms(1) same show ?thesis by (simp add: node_post_def)
  next
    case True
    with assms(1) obtain c where c:
      "viewNodes h1 ! a = (viewNodes h ! a)\<lparr>vn_viewRef := Some c\<rparr>"
      "length (viewRefs h) \<le> c" "c < length (viewRefs h1)"
      "c_componentFactory C (resolve C (vn_componentSelector (viewNodes h ! a)))
          (vn_element (viewNodes h ! a)) = Inr (vr_componentRef (viewRefs h1 ! c))"
      by (auto simp: node_post_def)
    from c(3) refs have "viewRefs h' ! c = viewRefs h1 ! c" by simp
    with c len same have "viewNodes h' ! a = (viewNodes h ! a)\<lparr>vn_viewRef := Some c\<rparr> \<and>
        length (viewRefs h) \<le> c \<and> c < length (viewRefs h') \<and>
        c_componentFactory C (resolve C (vn_componentSelector (viewNodes h ! a)))
          (vn_element (viewNodes h ! a)) = Inr (vr_componentRef (viewRefs h' ! c))"
      by simp
    with True show ?thesis
      unfolding node_post_def by auto
  qed
qed

lemma node_post_earlier:
  assumes "node_post C h1 h' b" and "viewNodes h1 ! b = viewNodes h ! b"
    and "length (viewRefs h) \<le> length (viewRefs h1)"
  shows "node_post C h h' b"
proof (cases "truthy (vn_componentSelector (viewNodes h ! b))")
  case False
  with assms(1,2) show ?thesis by (simp add: node_post_def)
next
  case True
  with assms(1,2) obtain c where c:
    "viewNodes h' ! b = (viewNodes h ! b)\<lparr>vn_viewRef := Some c\<rparr>"
    "length (viewRefs h1) \<le> c" "c < length (viewRefs h')"
    "c_componentFactory C (resolve C (vn_componentSelector (viewNodes h ! b)))
        (vn_element (viewNodes h ! b)) = Inr (vr_componentRef (viewRefs h' ! c))"
    by (auto simp: node_post_def)
  from c(2) assms(3) have "length (viewRefs h) \<le> c" by simp
  with c True show ?thesis
    unfolding node_post_def by auto
qed

lemma callback_post:
  assumes IH: "compile_ok n C"
    and run: "callback n C v a T h = Some (Inr (T1, h1))"
    and a: "a < length (viewNodes h)"
  shows "step C {a} h h1 \<and> node_post C h h1 a \<and> tree_post T T1 h h1"
proof (cases "truthy (vn_componentSelector (viewNodes h ! a))")
  case False
  with run have "T1 = T" "h1 = h"
    by (simp_all add: callback_def)
  with False show ?thesis
    by (simp add: step_refl tree_post_refl node_post_def)
next
  case True
  with run have "compileViewRef n C (resolve C (vn_componentSelector (viewNodes h ! a)))
      (vn_element (viewNodes h ! a)) (Some T) (Some v) (Some a) h = Some (Inr (T1, h1))"
    by (simp add: callback_def resolve_def)
  with IH a have post: "compile_post C (resolve C (vn_componentSelector (viewNodes h ! a)))
      (vn_element (viewNodes h ! a)) (Some T) (Some v) (Some a) h T1 h1"
    unfolding compile_ok_def by blast
  then have s: "step C {a} h h1"
    and l: "length (viewRefs h) < length (viewRefs h1)"
    and n: "viewNodes h1 ! a = (viewNodes h ! a)\<lparr>vn_viewRef := Some (length (viewRefs h))\<rparr>"
    and f: "c_componentFactory C (resolve C (vn_componentSelector (viewNodes h ! a)))
        (vn_element (viewNodes h ! a)) = Inr (vr_componentRef (viewRefs h1 ! length (viewRefs h)))"
    and t: "tree_post T T1 h h1"
    by (simp_all add: compile_post_def)
  from n l f have "\<exists>c. viewNodes h1 ! a = (viewNodes h ! a)\<lparr>vn_viewRef := Some c\<rparr> \<and>
      length (viewRefs h) \<le> c \<and> c < length (viewRefs h1) \<and>
      c_componentFactory C (resolve C (vn_componentSelector (viewNodes h ! a)))
        (vn_element (viewNodes h ! a)) = Inr (vr_componentRef (viewRefs h1 ! c))"
    by (intro exI [of _ "length (viewRefs h)"]) simp
  with True have "node_post C h h1 a"
    by (simp add: node_post_def)
  with s t show ?thesis by simp
qed

lemma visit_all_post:
  assumes IH: "compile_ok n C"
  shows "visit_all n C v as T h = Some (Inr (T', h')) \<Longrightarrow>
     set as \<subseteq> {..<length (viewNodes h)} \<Longrightarrow> distinct as \<Longrightarrow>
     step C (set as) h h' \<and> (\<forall>a \<in> set as. node_post C h h' a) \<and> tree_post T T' h h'"
proof (induction as arbitrary: T h)
  case Nil
  then show ?case
    by (simp add: step_refl tree_post_refl)
next
  case (Cons a as)
  from Cons.prems(1) obtain T1 h1 where
    cb: "callback n C v a T h = Some (Inr (T1, h1))"
    and rest: "visit_all n C v as T1 h1 = Some (Inr (T', h'))"
    by (auto split: option.splits sum.splits)
  from Cons.prems(2) have a: "a < length (viewNodes h)" by simp
  from callback_post [OF IH cb a] have s1: "step C {a} h h1"
    and n1: "node_post C h h1 a" and t1: "tree_post T T1 h h1"
    by simp_all
  from s1 have len1: "length (viewNodes h) \<le> length (viewNodes h1)"
      "length (viewRefs h) \<le> length (viewRefs h1)"
    by (simp_all add: step_def)
  have sub: "set as \<subseteq> {..<length (viewNodes h)}"
    using Cons.prems(2) by simp
  with len1(1) have sub1: "set as \<subseteq> {..<length (viewNodes h1)}"
    by auto
  from Cons.prems(3) have dist: "distinct as" and notin: "a \<notin> set as"
    by simp_all
  from Cons.IH [OF rest sub1 dist] have s2: "step C (set as) h1 h'"
    and n2: "\<forall>b \<in> set as. node_post C h1 h' b" and t2: "tree_post T1 T' h1 h'"
    by simp_all
  from s2 have len2: "length (viewRefs h1) \<le> length (viewRefs h')"
    by (simp add: step_def)
  have "step C ({a} \<union> set as) h h'"
    using s1 s2 sub by (rule step_trans)
  then have s: "step C (set (a # as)) h h'" by simp
  have na: "node_post C h h' a"
    using n1 s2 notin a len1(1) by (intro node_post_later [of C h h1 a "set as" h']) simp_all
  have nb: "\<forall>b \<in> set as. node_post C h h' b"
  proof
    fix b assume b: "b \<in> set as"
    with notin have "b \<noteq> a" by auto
    moreover from b sub have "b < length (viewNodes h)" by auto
    ultimately have "viewNodes h1 ! b = viewNodes h ! b"
      using s1 by (simp add: step_def)
    with n2 b len1(2) show "node_post C h h' b"
      by (intro node_post_earlier [of C h1 h' b h]) simp_all
  qed
  have t: "tree_post T T' h h'"
    using t1 t2 len1(2) len2 by (rule tree_post_trans)
  from s na nb t show ?case by simp
qed

lemma setCompiled_simps:
  "viewNodes (setCompiled v h) = viewNodes h"
  "length (viewRefs (setCompiled v h)) = length (viewRefs h)"
  "trace (setCompiled v h) = trace h @ [CompiledSet v]"
  "i \<noteq> v \<Longrightarrow> viewRefs (setCompiled v h) ! i = viewRefs h ! i"
  "v < length (viewRefs h) \<Longrightarrow>
     viewRefs (setCompiled v h) ! v = (viewRefs h ! v)\<lparr>vr_compiled := True\<rparr>"
  by (simp_all add: setCompiled_def)

lemma compileViewRef_Suc_post:
  assumes IH: "compile_ok n C"
    and run: "compileViewRef (Suc n) C c host T P H h = Some (Inr (t', h'))"
    and valid: "\<forall>a. H = Some a \<longrightarrow> a < length (viewNodes h)"
  shows "compile_post C c host T P H h t' h'"
proof -
  from run obtain v nt t1 h1 h2 where
    stp: "compileViewRef_setup C c host T P H h = Inr (v, nt, t1, h1)"
    and trav: "traverseDF n C v True nt t1 h1 = Some (Inr (t', h2))"
    and h': "h' = setCompiled v h2"
    by (auto split: sum.splits option.splits)
  note su = setup_Inr [OF stp]
  let ?b = "length (viewNodes h)"
  let ?e = "length (viewNodes h1)"
  define as where "as = preorder_list (children nt)"
  have pre: "preorder nt = data nt # as"
    by (cases nt) (simp add: as_def)
  have upt: "[?b..<?e] = ?b # [Suc ?b..<?e]"
    using su(7) upt_rec [of ?b ?e] by simp
  have both: "data nt # as = ?b # [Suc ?b..<?e]"
    using pre su(6) upt by (simp only:)
  have "hd (data nt # as) = hd (?b # [Suc ?b..<?e])"
    using both by (rule arg_cong)
  then have root: "data nt = ?b" by (simp only: list.sel)
  have "tl (data nt # as) = tl (?b # [Suc ?b..<?e])"
    using both by (rule arg_cong)
  then have as: "as = [Suc ?b..<?e]" by (simp only: list.sel)
  have v: "v = length (viewRefs h)" by (rule su(1))
  have len1r: "length (viewRefs h1) = Suc v" using su(2) v by simp
  from su(4) obtain cref where cref: "c_componentFactory C c host = Inr cref"
    and vr1: "viewRefs h1 ! v = \<lparr>vr_componentRef = cref, vr_nodesTree = nt,
             vr_renderHost = (if T = None \<and> P = None then Some host else None),
             vr_compiled = False\<rparr>"
    by auto
  from trav have vis: "visit_all n C v as t1 h1 = Some (Inr (t', h2))"
    by (simp add: traverseDF_visit_all as_def)
  have as_sub: "set as \<subseteq> {..<?e}" and as_dist: "distinct as"
    by (auto simp: as)
  from visit_all_post [OF IH vis as_sub as_dist] have s12: "step C (set as) h1 h2"
    and np: "\<forall>a \<in> set as. node_post C h1 h2 a" and tp: "tree_post t1 t' h1 h2"
    by simp_all
  from s12 have len2n: "?e \<le> length (viewNodes h2)"
    and len2r: "Suc v \<le> length (viewRefs h2)"
    and refs2: "\<forall>i < Suc v. viewRefs h2 ! i = viewRefs h1 ! i"
    and nodes2: "\<forall>a < ?e. a \<notin> set as \<longrightarrow> viewNodes h2 ! a = viewNodes h1 ! a"
    and new2: "\<forall>i. Suc v \<le> i \<and> i < length (viewRefs h2) \<longrightarrow>
        settled C h2 i \<and> set (preorder (vr_nodesTree (viewRefs h2 ! i))) \<subseteq> {?e..}"
    by (simp_all add: step_def len1r)
  from s12 obtain ws where ws: "trace h2 = trace h1 @ map CompiledSet ws" "distinct ws"
      "set ws = {Suc v..<length (viewRefs h2)}"
    by (auto simp: step_def len1r)
  have nodes': "viewNodes h' = viewNodes h2"
    and len'r: "length (viewRefs h') = length (viewRefs h2)"
    and trace': "trace h' = trace h @ map CompiledSet (ws @ [v])"
    using ws(1) su(5) by (simp_all add: h' setCompiled_simps)
  have vlt: "v < length (viewRefs h2)" using len2r by simp
  have vr2: "viewRefs h2 ! v = viewRefs h1 ! v" using refs2 by simp
  have vr': "viewRefs h' ! v = (viewRefs h1 ! v)\<lparr>vr_compiled := True\<rparr>"
    using vlt vr2 by (simp add: h' setCompiled_simps)
  have other': "\<And>i. i \<noteq> v \<Longrightarrow> viewRefs h' ! i = viewRefs h2 ! i"
    by (simp add: h' setCompiled_simps)
  have old_nodes: "\<And>a. a < ?b \<Longrightarrow> viewNodes h' ! a = viewNodes h1 ! a"
  proof -
    fix a assume a: "a < ?b"
    then have "a \<notin> set as" by (simp add: as)
    moreover from a su(7) have "a < ?e" by simp
    ultimately show "viewNodes h' ! a = viewNodes h1 ! a"
      using nodes2 nodes' by simp
  qed
  have new_none: "\<And>a. ?b \<le> a \<Longrightarrow> a < ?e \<Longrightarrow> vn_viewRef (viewNodes h1 ! a) = None"
  proof -
    fix a assume a: "?b \<le> a" "a < ?e"
    with valid have "H \<noteq> Some a" by auto
    with a su(9) show "vn_viewRef (viewNodes h1 ! a) = None" by simp
  qed
  have settled_v: "settled C h' v"
    unfolding settled_def
  proof (intro conjI ballI)
    show "vr_compiled (viewRefs h' ! v)" by (simp add: vr')
    show "set (preorder (vr_nodesTree (viewRefs h' ! v))) \<subseteq> {..<length (viewNodes h')}"
      using su(6) len2n by (auto simp: vr' vr1 nodes')
    have "?b \<notin> set as" by (simp add: as)
    then have "viewNodes h' ! ?b = viewNodes h1 ! ?b"
      using nodes2 su(7) nodes' by simp
    with new_none [of ?b] su(7)
    show "vn_viewRef (viewNodes h' ! data (vr_nodesTree (viewRefs h' ! v))) = None"
      by (simp add: vr' vr1 root)
  next
    fix a assume "a \<in> set (preorder_list (children (vr_nodesTree (viewRefs h' ! v))))"
    then have a: "a \<in> set as" by (simp add: vr' vr1 as_def)
    then have range: "?b \<le> a" "a < ?e" by (auto simp: as)
    from a np have post: "node_post C h1 h2 a" by simp
    show "linked C h' v a"
    proof (cases "truthy (vn_componentSelector (viewNodes h1 ! a))")
      case False
      with post have "viewNodes h2 ! a = viewNodes h1 ! a"
        by (simp add: node_post_def)
      with False new_none [OF range] show ?thesis
        by (simp add: linked_def nodes')
    next
      case True
      with post obtain k where k:
        "viewNodes h2 ! a = (viewNodes h1 ! a)\<lparr>vn_viewRef := Some k\<rparr>"
        "Suc v \<le> k" "k < length (viewRefs h2)"
        "c_componentFactory C (resolve C (vn_componentSelector (viewNodes h1 ! a)))
            (vn_element (viewNodes h1 ! a)) = Inr (vr_componentRef (viewRefs h2 ! k))"
        by (auto simp: node_post_def len1r)
      from k(2,3) ws(3) have "k \<in> set ws" by simp
      then have "CompiledSet k \<in> set (trace h2)"
        by (simp add: ws(1))
      then have "precedes (CompiledSet k) (CompiledSet v) (trace h2 @ [CompiledSet v])"
        by (rule precedes_snoc)
      then have prec: "precedes (CompiledSet k) (CompiledSet v) (trace h')"
        by (simp add: h' setCompiled_simps)
      from k(2) have "k \<noteq> v" by simp
      then have "viewRefs h' ! k = viewRefs h2 ! k" by (rule other')
      with True k prec show ?thesis
        by (simp add: linked_def nodes' len'r)
    qed
  qed
  have settled_new: "\<And>i. Suc v \<le> i \<Longrightarrow> i < length (viewRefs h2) \<Longrightarrow> settled C h' i"
  proof -
    fix i assume i: "Suc v \<le> i" "i < length (viewRefs h2)"
    with new2 have s: "settled C h2 i" by simp
    show "settled C h' i"
      using s i(2)
    proof (rule settled_preserved)
      show "length (viewNodes h2) \<le> length (viewNodes h')" by (simp add: nodes')
      show "length (viewRefs h2) \<le> length (viewRefs h')" by (simp add: len'r)
      show "\<forall>j. i \<le> j \<and> j < length (viewRefs h2) \<longrightarrow> viewRefs h' ! j = viewRefs h2 ! j"
        using i(1) other' by auto
      show "\<forall>a \<in> set (preorder (vr_nodesTree (viewRefs h2 ! i))). viewNodes h' ! a = viewNodes h2 ! a"
        by (simp add: nodes')
      show "\<exists>evs. trace h' = trace h2 @ evs"
        by (simp add: h' setCompiled_simps)
    qed
  qed
  have P1: "step C (set_option H) h h'"
    unfolding step_def
  proof (intro conjI allI impI)
    show "length (viewNodes h) \<le> length (viewNodes h')"
      using su(7) len2n nodes' by simp
    show "length (viewRefs h) \<le> length (viewRefs h')"
      using len2r len'r v by simp
  next
    fix i assume i: "i < length (viewRefs h)"
    then have "i \<noteq> v" "i < Suc v" using v by simp_all
    then have "viewRefs h' ! i = viewRefs h1 ! i"
      using other' refs2 by simp
    with i su(3) show "viewRefs h' ! i = viewRefs h ! i" by simp
  next
    fix a assume a: "a < length (viewNodes h)" "a \<notin> set_option H"
    then have "H \<noteq> Some a" by auto
    with a su(8) have "viewNodes h1 ! a = viewNodes h ! a" by simp
    with old_nodes [OF a(1)] show "viewNodes h' ! a = viewNodes h ! a" by simp
  next
    fix i assume i: "length (viewRefs h) \<le> i \<and> i < length (viewRefs h')"
    show "settled C h' i"
    proof (cases "i = v")
      case True
      with settled_v show ?thesis by simp
    next
      case False
      with i v len'r show ?thesis
        by (intro settled_new) simp_all
    qed
    show "set (preorder (vr_nodesTree (viewRefs h' ! i))) \<subseteq> {length (viewNodes h)..}"
    proof (cases "i = v")
      case True
      then show ?thesis
        using su(6) by (auto simp: vr' vr1)
    next
      case False
      with i v len'r have "Suc v \<le> i \<and> i < length (viewRefs h2)" by simp
      with new2 have "set (preorder (vr_nodesTree (viewRefs h2 ! i))) \<subseteq> {?e..}" by simp
      with su(7) other' [OF False] show ?thesis by auto
    qed
  next
    have "distinct (ws @ [v])"
      using ws(2,3) by auto
    moreover have "set (ws @ [v]) = {length (viewRefs h)..<length (viewRefs h')}"
      using ws(3) len2r len'r v by auto
    ultimately show "\<exists>ws. trace h' = trace h @ map CompiledSet ws \<and> distinct ws \<and>
        set ws = {length (viewRefs h)..<length (viewRefs h')}"
      using trace' by blast
  qed
  have P2: "length (viewRefs h) < length (viewRefs h')"
    using len2r len'r v by simp
  have P3: "\<forall>a. H = Some a \<longrightarrow>
      viewNodes h' ! a = (viewNodes h ! a)\<lparr>vn_viewRef := Some (length (viewRefs h))\<rparr>"
  proof (intro allI impI)
    fix a assume a: "H = Some a"
    with valid have lt: "a < ?b" by simp
    with su(8) a have "viewNodes h1 ! a = (viewNodes h ! a)\<lparr>vn_viewRef := Some v\<rparr>" by simp
    with old_nodes [OF lt] v
    show "viewNodes h' ! a = (viewNodes h ! a)\<lparr>vn_viewRef := Some (length (viewRefs h))\<rparr>"
      by simp
  qed
  have P4: "c_componentFactory C c host = Inr (vr_componentRef (viewRefs h' ! length (viewRefs h)))"
    using cref vr' vr1 v by simp
  have P5: "vr_renderHost (viewRefs h' ! length (viewRefs h))
      = (if T = None \<and> P = None then Some host else None)"
    using vr' vr1 v by simp
  have P6: "\<exists>ws. trace h' = trace h @ map CompiledSet (ws @ [length (viewRefs h)])"
    using trace' v by blast
  from tp have tp_data: "data t' = data t1"
    and tp_set: "set (preorder t') = set (preorder t1) \<union> {Suc v..<length (viewRefs h2)}"
    and tp_len: "length (preorder t') = length (preorder t1) + (length (viewRefs h2) - Suc v)"
    and tp_edges: "set (edges t1) \<subseteq> set (edges t')"
    by (simp_all add: tree_post_def len1r)
  have P7: "case T of
         None \<Rightarrow>
           P = None \<and> data t' = length (viewRefs h) \<and>
           set (preorder t') = {length (viewRefs h)..<length (viewRefs h')} \<and>
           length (preorder t') = length (viewRefs h') - length (viewRefs h)
       | Some t \<Rightarrow>
           tree_post t t' h h' \<and> (\<exists>p. P = Some p \<and> (p, length (viewRefs h)) \<in> set (edges t'))"
  proof (cases T)
    case None
    with su(10) have PN: "P = None" and t1: "t1 = TreeNode v []" by simp_all
    have a1: "data t' = length (viewRefs h)"
      using tp_data t1 v by simp
    have "{v} \<union> {Suc v..<length (viewRefs h2)} = {v..<length (viewRefs h2)}"
      using len2r by auto
    then have a2: "set (preorder t') = {length (viewRefs h)..<length (viewRefs h')}"
      using tp_set t1 v len'r by simp
    have a3: "length (preorder t') = length (viewRefs h') - length (viewRefs h)"
      using tp_len t1 len2r len'r v by simp
    from PN a1 a2 a3 None show ?thesis
      by simp
  next
    case (Some t)
    with su(10) obtain p where p: "P = Some p" "add_node v p t = Some t1" by auto
    note f = add_node_facts [OF p(2)]
    have "tree_post t t' h h'"
      unfolding tree_post_def
    proof (intro conjI)
      show "data t' = data t" using tp_data f(1) by simp
      have "{v} \<union> {Suc v..<length (viewRefs h2)} = {v..<length (viewRefs h2)}"
        using len2r by auto
      then show "set (preorder t') = set (preorder t) \<union> {length (viewRefs h)..<length (viewRefs h')}"
        using tp_set f(2) len'r v by auto
      show "length (preorder t') = length (preorder t) + (length (viewRefs h') - length (viewRefs h))"
        using tp_len f(3) len2r len'r v by simp
      show "set (edges t) \<subseteq> set (edges t')"
        using tp_edges f(4) by auto
    qed
    moreover have "(p, length (viewRefs h)) \<in> set (edges t')"
      using tp_edges f(4) v by auto
    ultimately show ?thesis
      using Some p(1) by simp
  qed
  from P1 P2 P3 P4 P5 P6 P7 show ?thesis
    unfolding compile_post_def by (intro conjI)
qed

lemma compile_ok: "compile_ok n C"
proof (induction n)
  case 0
  show ?case by (simp add: compile_ok_def)
next
  case (Suc n)
  show ?case
    unfolding compile_ok_def
  proof (intro allI impI)
    fix c host T P H h t' h'
    assume "compileViewRef (Suc n) C c host T P H h = Some (Inr (t', h'))"
      and "\<forall>a. H = Some a \<longrightarrow> a < length (viewNodes h)"
    with Suc show "compile_post C c host T P H h t' h'"
      by (rule compileViewRef_Suc_post)
  qed
qed

section \<open>The bound on the depth\<close>

lemma callback_fuel:
  assumes "fuel_ok n C" and "callback n C v a T h = Some r"
  shows "callback (Suc n) C v a T h = Some r"
proof (cases "truthy (vn_componentSelector (viewNodes h ! a))")
  case False
  with assms(2) show ?thesis by (simp add: callback_def)
next
  case True
  with assms(2) have "compileViewRef n C (resolve C (vn_componentSelector (viewNodes h ! a)))
      (vn_element (viewNodes h ! a)) (Some T) (Some v) (Some a) h = Some r"
    by (simp add: callback_def resolve_def)
  with assms(1) have "compileViewRef (Suc n) C (resolve C (vn_componentSelector (viewNodes h ! a)))
      (vn_element (viewNodes h ! a)) (Some T) (Some v) (Some a) h = Some r"
    unfolding fuel_ok_def by blast
  with True show ?thesis
    unfolding callback_def resolve_def by simp
qed

lemma visit_all_fuel:
  assumes "fuel_ok n C"
  shows "visit_all n C v as T h = Some r \<Longrightarrow> visit_all (Suc n) C v as T h = Some r"
proof (induction as arbitrary: T h)
  case Nil
  then show ?case by simp
next
  case (Cons a as)
  from Cons.prems obtain x where x: "callback n C v a T h = Some x"
    by (auto split: option.splits)
  from callback_fuel [OF assms x] have x': "callback (Suc n) C v a T h = Some x" .
  show ?case
  proof (cases x)
    case (Inl e)
    with x Cons.prems have "r = Inl e" by simp
    with x' Inl show ?thesis by simp
  next
    case (Inr p)
    obtain T1 h1 where p: "p = (T1, h1)" by (cases p)
    with x Inr Cons.prems have "visit_all n C v as T1 h1 = Some r" by simp
    then have "visit_all (Suc n) C v as T1 h1 = Some r" by (rule Cons.IH)
    with x' Inr p show ?thesis by simp
  qed
qed

lemma fuel_ok_all: "fuel_ok n C"
proof (induction n)
  case 0
  show ?case by (simp add: fuel_ok_def)
next
  case (Suc n)
  show ?case
    unfolding fuel_ok_def
  proof (intro allI impI)
    fix c host T P H h r
    assume run: "compileViewRef (Suc n) C c host T P H h = Some r"
    show "compileViewRef (Suc (Suc n)) C c host T P H h = Some r"
    proof (cases "compileViewRef_setup C c host T P H h")
      case (Inl e)
      with run show ?thesis by simp
    next
      case (Inr q)
      obtain v nt t1 h1 where q: "q = (v, nt, t1, h1)" by (cases q)
      from run Inr q obtain x where x: "traverseDF n C v True nt t1 h1 = Some x"
        by (auto split: option.splits)
      then have "visit_all n C v (preorder_list (children nt)) t1 h1 = Some x"
        by (simp add: traverseDF_visit_all)
      from visit_all_fuel [OF Suc this]
      have x': "traverseDF (Suc n) C v True nt t1 h1 = Some x"
        by (simp add: traverseDF_visit_all)
      from run Inr q x have "r = (case x of Inl e \<Rightarrow> Inl e
          | Inr (tree2, h2) \<Rightarrow> Inr (tree2, setCompiled v h2))"
        by (auto split: sum.splits)
      with Inr q x' show ?thesis
        by (auto split: sum.splits)
    qed
  qed
qed

lemma compileViewRef_fuel:
  "compileViewRef n C c host T P H h = Some r \<Longrightarrow> compileViewRef (n + k) C c host T P H h = Some r"
proof (induction k)
  case 0
  then show ?case by simp
next
  case (Suc k)
  then have "compileViewRef (n + k) C c host T P H h = Some r" by simp
  with fuel_ok_all [of "n + k" C] show ?case
    unfolding fuel_ok_def by simp
qed

lemma compile_Inr:
  "compile n C c host h = Some (Inr r) \<longleftrightarrow>
     compileViewRef n C c host None None None h = Some (Inr r)"
  by (auto simp: compile_def split: option.splits sum.splits)


lemma compile_fuel:
  assumes "compile n C c host h = Some r"
  shows "compile (n + k) C c host h = Some r"
proof -
  from assms obtain x where x: "compileViewRef n C c host None None None h = Some x"
    by (auto simp: compile_def split: option.splits)
  from compileViewRef_fuel [OF x]
  have "compileViewRef (n + k) C c host None None None h = Some x" .
  with assms x show ?thesis
    by (simp add: compile_def)
qed


section \<open>Compilations that return and compilations that abort\<close>

lemma add_node_Some: "p \<in> set (preorder t) \<Longrightarrow> \<exists>t'. add_node d p t = Some t'"
  using graft_Some(1) [of p t "TreeNode d []"] by (simp add: add_node_graft)

lemma preorder_child_subset: "c \<in> set cs \<Longrightarrow> set (preorder c) \<subseteq> set (preorder_list cs)"
  by (induction cs) auto

lemma builds_root:
  "builds C (TreeNode a cs) \<Longrightarrow>
     \<exists>bs. buildBindings (c_bindingBuilder C) (ast_bindings a) v (fresh_node a) = Inr bs"
  by (simp add: builds_def)

lemma builds_children: "builds C (TreeNode a cs) \<Longrightarrow> \<forall>c \<in> set cs. builds C c"
  using preorder_child_subset by (fastforce simp: builds_def)

lemma getViewNodes_keeps:
  "getViewNodes C ast parent vt h = Inr (t', h') \<Longrightarrow>
     \<forall>t. vt = Some t \<longrightarrow> set (preorder t) \<subseteq> set (preorder t')"
  "getViewNodes_forEach C cs vn t h = Inr (t', h') \<Longrightarrow> set (preorder t) \<subseteq> set (preorder t')"
proof (induction C ast parent vt h and C cs vn t h arbitrary: t' h' and t' h'
    rule: getViewNodes_getViewNodes_forEach.induct)
  case (1 C a cs parent vt h)
  from "1.prems" obtain v h1 where b: "buildViewNode C a h = Inr (v, h1)"
    by (auto split: sum.splits)
  from "1.prems" b obtain t1 where
    t1: "(if vt = None \<and> parent = None then Inr (TreeNode v [])
          else (case vt of None \<Rightarrow> Inl TypeError | Some t \<Rightarrow> tree_add v parent t)) = Inr t1"
    and each: "getViewNodes_forEach C cs v t1 h1 = Inr (t', h')"
    by (auto split: sum.splits)
  from "1.IH" [OF b refl t1 each] have sub: "set (preorder t1) \<subseteq> set (preorder t')" .
  show ?case
  proof (intro allI impI)
    fix t assume vt: "vt = Some t"
    with t1 obtain p where "add_node v p t = Some t1"
      by (auto simp: tree_add_def split: option.splits if_splits)
    from add_node_facts(2) [OF this] sub show "set (preorder t) \<subseteq> set (preorder t')"
      by auto
  qed
next
  case (2 C vn t h)
  then show ?case by simp
next
  case (3 C c cs vn t h)
  from "3.prems" obtain t1 h1 where
    one: "getViewNodes C c (Some vn) (Some t) h = Inr (t1, h1)"
    and rest: "getViewNodes_forEach C cs vn t1 h1 = Inr (t', h')"
    by (auto split: sum.splits)
  from "3.IH"(1) [OF one] have "set (preorder t) \<subseteq> set (preorder t1)" by simp
  moreover from "3.IH"(2) [OF one refl rest] have "set (preorder t1) \<subseteq> set (preorder t')" .
  ultimately show ?case by blast
qed

lemma getViewNodes_total:
  "builds C ast \<Longrightarrow> placed vt parent \<Longrightarrow>
     \<exists>t' h'. getViewNodes C ast parent vt h = Inr (t', h')"
  "\<forall>c \<in> set cs. builds C c \<Longrightarrow> vn \<in> set (preorder t) \<Longrightarrow>
     \<exists>t' h'. getViewNodes_forEach C cs vn t h = Inr (t', h')"
proof (induction C ast parent vt h and C cs vn t h
    rule: getViewNodes_getViewNodes_forEach.induct)
  case (1 C a cs parent vt h)
  let ?v = "length (viewNodes h)"
  from builds_root [OF "1.prems"(1), of ?v] obtain bs where
    bs: "buildBindings (c_bindingBuilder C) (ast_bindings a) ?v (fresh_node a) = Inr bs" ..
  define h1 where "h1 = h\<lparr>viewNodes := viewNodes h @ [(fresh_node a)\<lparr>vn_bindings := bs\<rparr>]\<rparr>"
  have b: "buildViewNode C a h = Inr (?v, h1)"
    using bs by (simp add: buildViewNode_def Let_def fresh_node_def h1_def)
  have "\<exists>t1. (if vt = None \<and> parent = None then Inr (TreeNode ?v [])
          else (case vt of None \<Rightarrow> Inl TypeError | Some t \<Rightarrow> tree_add ?v parent t)) = Inr t1 \<and>
        ?v \<in> set (preorder t1)"
  proof (cases vt)
    case None
    with "1.prems"(2) show ?thesis by (simp add: placed_def)
  next
    case (Some t)
    with "1.prems"(2) obtain p where p: "parent = Some p" "p \<in> set (preorder t)"
      by (auto simp: placed_def split: option.splits)
    from add_node_Some [OF p(2), of ?v] obtain t1 where t1: "add_node ?v p t = Some t1" ..
    from add_node_facts(2) [OF t1] have "?v \<in> set (preorder t1)" by simp
    with Some p t1 show ?thesis by (simp add: tree_add_def)
  qed
  then obtain t1 where
    t1: "(if vt = None \<and> parent = None then Inr (TreeNode ?v [])
          else (case vt of None \<Rightarrow> Inl TypeError | Some t \<Rightarrow> tree_add ?v parent t)) = Inr t1"
    and v: "?v \<in> set (preorder t1)"
    by blast
  from "1.IH" [OF b refl t1 builds_children [OF "1.prems"(1)] v]
  obtain t' h' where "getViewNodes_forEach C cs ?v t1 h1 = Inr (t', h')" by blast
  with b t1 show ?case by simp
next
  case (2 C vn t h)
  show ?case by simp
next
  case (3 C c cs vn t h)
  have pl: "placed (Some t) (Some vn)"
    using "3.prems"(2) by (simp add: placed_def)
  from "3.prems"(1) have bc: "builds C c" by simp
  from "3.IH"(1) [OF bc pl] obtain t1 h1 where
    one: "getViewNodes C c (Some vn) (Some t) h = Inr (t1, h1)" by blast
  from getViewNodes_keeps(1) [OF one] "3.prems"(2) have vn: "vn \<in> set (preorder t1)" by auto
  from "3.prems"(1) have "\<forall>c \<in> set cs. builds C c" by simp
  from "3.IH"(2) [OF one refl this vn] obtain t' h' where
    "getViewNodes_forEach C cs vn t1 h1 = Inr (t', h')" by blast
  with one show ?case by simp
qed

lemma mirrors_contents:
  "mirrors C h ast t \<Longrightarrow> map (contents h) (preorder t) = map ast_contents (preorder ast)"
  "list_all2 (mirrors C h) cs ts \<Longrightarrow>
     map (contents h) (preorder_list ts) = map ast_contents (preorder_list cs)"
proof (induction ast and cs arbitrary: t and ts rule: preorder_preorder_list.induct)
  case (1 a cs)
  obtain v ts where t: "t = TreeNode v ts" by (cases t)
  with "1.prems" have kids: "list_all2 (mirrors C h) cs ts"
    and "contents h v = ast_contents a"
    by (simp_all add: contents_def ast_contents_def)
  with "1.IH" [OF kids] t show ?case by simp
next
  case 2
  then show ?case by simp
next
  case (3 c cs)
  from "3.prems" obtain t ts' where ts: "ts = t # ts'" "mirrors C h c t"
      "list_all2 (mirrors C h) cs ts'"
    by (auto simp: list_all2_Cons1)
  with "3.IH"(1) [OF ts(2)] "3.IH"(2) [OF ts(3)] show ?case by simp
qed

lemma setup_ast:
  assumes run: "compileViewRef_setup C c host T P H h = Inr (v, nt, t1, h1)"
  shows "\<exists>cref ast. c_componentFactory C c host = Inr cref \<and>
           c_parser C (cr_template cref) host = Inr ast \<and>
           map (contents h1) (preorder nt) = map ast_contents (preorder ast)"
proof -
  from run obtain cref where cref: "c_componentFactory C c host = Inr cref"
    by (auto simp: compileViewRef_setup_def split: sum.splits)
  from run cref obtain ast where ast: "c_parser C (cr_template cref) host = Inr ast"
    by (auto simp: compileViewRef_setup_def split: sum.splits)
  from run cref ast obtain nt' h0 where g: "getViewNodes C ast None None h = Inr (nt', h0)"
    by (auto simp: compileViewRef_setup_def split: sum.splits)
  from run cref ast g have nt: "nt = nt'"
    by (auto simp: compileViewRef_setup_def Let_def split: sum.splits if_splits option.splits)
  from run cref ast g have
    "viewNodes h1 = viewNodes h0 \<or>
     (\<exists>n. viewNodes h1 = (viewNodes h0)[n := (viewNodes h0 ! n)\<lparr>vn_viewRef := Some v\<rparr>])"
    by (auto simp: compileViewRef_setup_def Let_def updateRenderHost_def setViewRef_def
        split: sum.splits if_splits option.splits)
  then have same: "contents h1 a = contents h0 a" for a
  proof
    assume "viewNodes h1 = viewNodes h0"
    then show ?thesis by (simp add: contents_def)
  next
    assume "\<exists>n. viewNodes h1 = (viewNodes h0)[n := (viewNodes h0 ! n)\<lparr>vn_viewRef := Some v\<rparr>]"
    then obtain n where n: "viewNodes h1 = (viewNodes h0)[n := (viewNodes h0 ! n)\<lparr>vn_viewRef := Some v\<rparr>]"
      ..
    show ?thesis
    proof (cases "n < length (viewNodes h0)")
      case True
      with n show ?thesis by (cases "a = n") (simp_all add: contents_def)
    next
      case False
      then have "(viewNodes h0)[n := (viewNodes h0 ! n)\<lparr>vn_viewRef := Some v\<rparr>] = viewNodes h0"
        by (simp add: list_update_beyond)
      with n show ?thesis by (simp add: contents_def)
    qed
  qed
  from getViewNodes_root(3) [OF g] have "mirrors C h0 ast nt'" .
  from mirrors_contents(1) [OF this]
  have "map (contents h0) (preorder nt) = map ast_contents (preorder ast)"
    by (simp add: nt)
  moreover have "map (contents h1) (preorder nt) = map (contents h0) (preorder nt)"
    by (rule map_cong) (simp_all add: same)
  ultimately show ?thesis
    using cref ast by auto
qed

lemma setup_total:
  assumes cref: "c_componentFactory C c host = Inr cref"
    and ast: "c_parser C (cr_template cref) host = Inr ast"
    and b: "builds C ast" and pl: "placed T P"
  shows "\<exists>v nt t1 h1. compileViewRef_setup C c host T P H h = Inr (v, nt, t1, h1)"
proof -
  have "placed None None" by (simp add: placed_def)
  from getViewNodes_total(1) [OF b this] obtain nt h0 where
    g: "getViewNodes C ast None None h = Inr (nt, h0)" by blast
  show ?thesis
  proof (cases T)
    case None
    with pl have "P = None" by (simp add: placed_def)
    with None cref ast g show ?thesis
      by (simp add: compileViewRef_setup_def Let_def)
  next
    case (Some t)
    with pl obtain p where p: "P = Some p" "p \<in> set (preorder t)"
      by (auto simp: placed_def split: option.splits)
    from add_node_Some [OF p(2), of "length (viewRefs h0)"] obtain t' where
      "add_node (length (viewRefs h0)) p t = Some t'" ..
    with Some p cref ast g show ?thesis
      by (simp add: compileViewRef_setup_def Let_def tree_add_def)
  qed
qed

lemma preorder_children: "preorder t = data t # preorder_list (children t)"
  by (cases t) simp

lemma visit_all_total:
  assumes IH: "total_ok n C" and ok: "compile_ok n C"
  shows "distinct as \<Longrightarrow> set as \<subseteq> {..<length (viewNodes h)} \<Longrightarrow> v \<in> set (preorder T) \<Longrightarrow>
     \<forall>a \<in> set as. truthy (snd (contents h a)) \<longrightarrow>
        compilable C n (resolve C (snd (contents h a))) (fst (contents h a)) \<Longrightarrow>
     \<exists>T' h'. visit_all n C v as T h = Some (Inr (T', h'))"
proof (induction as arbitrary: T h)
  case Nil
  show ?case by simp
next
  case (Cons a as)
  have a: "a < length (viewNodes h)"
    using Cons.prems(2) by simp
  have "\<exists>T1 h1. callback n C v a T h = Some (Inr (T1, h1))"
  proof (cases "truthy (vn_componentSelector (viewNodes h ! a))")
    case False
    then show ?thesis by (simp add: callback_def)
  next
    case True
    with Cons.prems(4) have "compilable C n (resolve C (vn_componentSelector (viewNodes h ! a)))
        (vn_element (viewNodes h ! a))"
      by (simp add: contents_def)
    moreover have "placed (Some T) (Some v)"
      using Cons.prems(3) by (simp add: placed_def)
    ultimately have "\<exists>t' h'. compileViewRef n C (resolve C (vn_componentSelector (viewNodes h ! a)))
        (vn_element (viewNodes h ! a)) (Some T) (Some v) (Some a) h = Some (Inr (t', h'))"
      using IH unfolding total_ok_def by blast
    with True show ?thesis
      by (simp add: callback_def resolve_def)
  qed
  then obtain T1 h1 where cb: "callback n C v a T h = Some (Inr (T1, h1))" by blast
  from callback_post [OF ok cb a] have st: "step C {a} h h1" and tp: "tree_post T T1 h h1"
    by simp_all
  have d: "distinct as" and na: "a \<notin> set as"
    using Cons.prems(1) by simp_all
  have sub: "set as \<subseteq> {..<length (viewNodes h1)}"
    using Cons.prems(2) st by (auto simp: step_def)
  have v: "v \<in> set (preorder T1)"
    using tp Cons.prems(3) by (simp add: tree_post_def)
  have same: "\<forall>b \<in> set as. contents h1 b = contents h b"
  proof
    fix b assume b: "b \<in> set as"
    with na Cons.prems(2) have "b < length (viewNodes h)" "b \<notin> {a}" by auto
    with st have "viewNodes h1 ! b = viewNodes h ! b"
      by (simp add: step_def)
    then show "contents h1 b = contents h b" by (simp add: contents_def)
  qed
  have "\<forall>b \<in> set as. truthy (snd (contents h1 b)) \<longrightarrow>
        compilable C n (resolve C (snd (contents h1 b))) (fst (contents h1 b))"
    using same Cons.prems(4) by simp
  from Cons.IH [OF d sub v this] obtain T' h' where
    "visit_all n C v as T1 h1 = Some (Inr (T', h'))" by blast
  with cb show ?case by simp
qed

lemma total_ok_all: "total_ok n C"
proof (induction n)
  case 0
  show ?case by (simp add: total_ok_def)
next
  case (Suc n)
  show ?case
    unfolding total_ok_def
  proof (intro allI impI)
    fix c host T P H h
    assume cp: "compilable C (Suc n) c host" and pl: "placed T P"
    from cp obtain cref where cref: "c_componentFactory C c host = Inr cref"
      by (auto split: sum.splits)
    from cp cref obtain ast where ast: "c_parser C (cr_template cref) host = Inr ast"
      by (auto split: sum.splits)
    from cp cref ast have b: "builds C ast"
      and kids: "\<forall>x \<in> set (preorder_list (children ast)).
          truthy (ast_componentSelector x) \<longrightarrow>
          compilable C n (resolve C (ast_componentSelector x)) (ast_element x)"
      by simp_all
    from setup_total [OF cref ast b pl, of H h] obtain v nt t1 h1 where
      s: "compileViewRef_setup C c host T P H h = Inr (v, nt, t1, h1)" by blast
    from setup_ast [OF s] cref ast
    have m: "map (contents h1) (preorder nt) = map ast_contents (preorder ast)"
      by auto
    then have m': "map (contents h1) (preorder_list (children nt))
        = map ast_contents (preorder_list (children ast))"
      by (simp add: preorder_children)
    let ?as = "preorder_list (children nt)"
    have "distinct (preorder nt)"
      by (simp add: setup_Inr(6) [OF s])
    then have d: "distinct ?as"
      by (simp add: preorder_children)
    have "set (preorder nt) \<subseteq> {..<length (viewNodes h1)}"
      by (auto simp: setup_Inr(6) [OF s])
    with children_subset [of nt] have sub: "set ?as \<subseteq> {..<length (viewNodes h1)}"
      by blast
    have v: "v \<in> set (preorder t1)"
    proof (cases T)
      case None
      with setup_Inr(10) [OF s] show ?thesis by simp
    next
      case (Some t)
      with setup_Inr(10) [OF s] obtain p where "add_node v p t = Some t1" by auto
      from add_node_facts(2) [OF this] show ?thesis by simp
    qed
    have c: "\<forall>a \<in> set ?as. truthy (snd (contents h1 a)) \<longrightarrow>
        compilable C n (resolve C (snd (contents h1 a))) (fst (contents h1 a))"
    proof
      fix a assume "a \<in> set ?as"
      then have "contents h1 a \<in> set (map (contents h1) ?as)" by simp
      with m' have "contents h1 a \<in> set (map ast_contents (preorder_list (children ast)))"
        by simp
      then obtain x where x: "x \<in> set (preorder_list (children ast))"
          "contents h1 a = ast_contents x"
        by auto
      with kids show "truthy (snd (contents h1 a)) \<longrightarrow>
          compilable C n (resolve C (snd (contents h1 a))) (fst (contents h1 a))"
        by (simp add: ast_contents_def)
    qed
    from visit_all_total [OF Suc compile_ok d sub v c] obtain T' h' where
      "visit_all n C v ?as t1 h1 = Some (Inr (T', h'))" by blast
    then have "traverseDF n C v True nt t1 h1 = Some (Inr (T', h'))"
      by (simp add: traverseDF_visit_all)
    with s show "\<exists>t' h'. compileViewRef (Suc n) C c host T P H h = Some (Inr (t', h'))"
      by simp
  qed
qed

lemma flags_post_refl: "flags_post h h"
  unfolding flags_post_def by (auto intro: exI [of _ "[]"])

lemma step_flags:
  assumes "step C S h h'"
  shows "flags_post h h'"
proof -
  from assms obtain ws where ws: "trace h' = trace h @ map CompiledSet ws" "distinct ws"
      "set ws = {length (viewRefs h)..<length (viewRefs h')}"
    by (auto simp: step_def)
  from assms have c: "\<forall>i. length (viewRefs h) \<le> i \<and> i < length (viewRefs h') \<longrightarrow>
      vr_compiled (viewRefs h' ! i)"
    by (simp add: step_def settled_def)
  from assms have l: "length (viewRefs h) \<le> length (viewRefs h')"
    and o: "\<forall>i < length (viewRefs h). viewRefs h' ! i = viewRefs h ! i"
    by (simp_all add: step_def)
  have "trace h' = trace h @ map CompiledSet ws \<and> distinct ws \<and>
      set ws \<subseteq> {length (viewRefs h)..<length (viewRefs h')} \<and>
      (\<forall>i. length (viewRefs h) \<le> i \<and> i < length (viewRefs h') \<longrightarrow>
           vr_compiled (viewRefs h' ! i) = (i \<in> set ws))"
    using ws c by simp
  then show ?thesis
    unfolding flags_post_def using l o by blast
qed

lemma flags_post_trans:
  assumes 1: "flags_post h h1" and 2: "flags_post h1 h'"
  shows "flags_post h h'"
proof -
  let ?a = "length (viewRefs h)" and ?b = "length (viewRefs h1)" and ?c = "length (viewRefs h')"
  from 1 have ab: "?a \<le> ?b" and o1: "\<forall>i < ?a. viewRefs h1 ! i = viewRefs h ! i"
    by (simp_all add: flags_post_def)
  from 2 have bc: "?b \<le> ?c" and o2: "\<forall>i < ?b. viewRefs h' ! i = viewRefs h1 ! i"
    by (simp_all add: flags_post_def)
  from 1 obtain ws1 where ws1: "trace h1 = trace h @ map CompiledSet ws1" "distinct ws1"
      "set ws1 \<subseteq> {?a..<?b}"
      "\<forall>i. ?a \<le> i \<and> i < ?b \<longrightarrow> vr_compiled (viewRefs h1 ! i) = (i \<in> set ws1)"
    unfolding flags_post_def by blast
  from 2 obtain ws2 where ws2: "trace h' = trace h1 @ map CompiledSet ws2" "distinct ws2"
      "set ws2 \<subseteq> {?b..<?c}"
      "\<forall>i. ?b \<le> i \<and> i < ?c \<longrightarrow> vr_compiled (viewRefs h' ! i) = (i \<in> set ws2)"
    unfolding flags_post_def by blast
  have t: "trace h' = trace h @ map CompiledSet (ws1 @ ws2)"
    using ws1(1) ws2(1) by simp
  have disj: "set ws1 \<inter> set ws2 = {}"
    using ws1(3) ws2(3) by fastforce
  then have d: "distinct (ws1 @ ws2)"
    using ws1(2) ws2(2) by simp
  have s: "set (ws1 @ ws2) \<subseteq> {?a..<?c}"
    using ws1(3) ws2(3) ab bc by fastforce
  have f: "\<forall>i. ?a \<le> i \<and> i < ?c \<longrightarrow> vr_compiled (viewRefs h' ! i) = (i \<in> set (ws1 @ ws2))"
  proof (intro allI impI)
    fix i assume i: "?a \<le> i \<and> i < ?c"
    show "vr_compiled (viewRefs h' ! i) = (i \<in> set (ws1 @ ws2))"
    proof (cases "i < ?b")
      case True
      with o2 have "viewRefs h' ! i = viewRefs h1 ! i" by simp
      moreover from True i ws1(4) have "vr_compiled (viewRefs h1 ! i) = (i \<in> set ws1)" by simp
      moreover from True ws2(3) have "i \<notin> set ws2" by fastforce
      ultimately show ?thesis by simp
    next
      case False
      with i ws2(4) have "vr_compiled (viewRefs h' ! i) = (i \<in> set ws2)" by simp
      moreover from False ws1(3) have "i \<notin> set ws1" by fastforce
      ultimately show ?thesis by simp
    qed
  qed
  have o: "\<forall>i < ?a. viewRefs h' ! i = viewRefs h ! i"
    using o1 o2 ab by simp
  from t d s f have "\<exists>ws. trace h' = trace h @ map CompiledSet ws \<and> distinct ws \<and>
      set ws \<subseteq> {?a..<?c} \<and>
      (\<forall>i. ?a \<le> i \<and> i < ?c \<longrightarrow> vr_compiled (viewRefs h' ! i) = (i \<in> set ws))"
    by blast
  with ab bc o show ?thesis
    unfolding flags_post_def by simp
qed

lemma flags_post_new:
  assumes "length (viewRefs h') = Suc (length (viewRefs h))"
    and "\<forall>i < length (viewRefs h). viewRefs h' ! i = viewRefs h ! i"
    and "\<not> vr_compiled (viewRefs h' ! length (viewRefs h))"
    and "trace h' = trace h"
  shows "flags_post h h'"
proof -
  have "\<forall>i. length (viewRefs h) \<le> i \<and> i < length (viewRefs h') \<longrightarrow>
      vr_compiled (viewRefs h' ! i) = (i \<in> set [])"
  proof (intro allI impI)
    fix i assume "length (viewRefs h) \<le> i \<and> i < length (viewRefs h')"
    with assms(1) have "i = length (viewRefs h)" by simp
    with assms(3) show "vr_compiled (viewRefs h' ! i) = (i \<in> set [])" by simp
  qed
  with assms(1,2,4) show ?thesis
    unfolding flags_post_def by (intro conjI exI [of _ "[]"]) simp_all
qed

lemma setup_flags_Inr:
  assumes s: "compileViewRef_setup C c host T P H h = Inr (v, nt, t1, h1)"
  shows "flags_post h h1"
proof (rule flags_post_new)
  show "length (viewRefs h1) = Suc (length (viewRefs h))"
    by (rule setup_Inr(2) [OF s])
  show "\<forall>i < length (viewRefs h). viewRefs h1 ! i = viewRefs h ! i"
    by (rule setup_Inr(3) [OF s])
  from setup_Inr(1,4) [OF s] show "\<not> vr_compiled (viewRefs h1 ! length (viewRefs h))"
    by auto
  show "trace h1 = trace h"
    by (rule setup_Inr(5) [OF s])
qed

lemma setup_flags_Inl:
  assumes s: "compileViewRef_setup C c host T P H h = Inl (e, h')"
  shows "abort_post h h'"
proof (cases "h' = h")
  case True
  then show ?thesis by (simp add: abort_post_def flags_post_refl)
next
  case False
  with s obtain cref where cref: "c_componentFactory C c host = Inr cref"
    by (auto simp: compileViewRef_setup_def split: sum.splits)
  from s False cref obtain ast where ast: "c_parser C (cr_template cref) host = Inr ast"
    by (auto simp: compileViewRef_setup_def split: sum.splits)
  from s False cref ast obtain nt h0 where g: "getViewNodes C ast None None h = Inr (nt, h0)"
    by (auto simp: compileViewRef_setup_def split: sum.splits)
  from s cref ast g have h': "h' = h0\<lparr>viewRefs := viewRefs h0 @
      [\<lparr>vr_componentRef = cref, vr_nodesTree = nt, vr_renderHost = None, vr_compiled = False\<rparr>]\<rparr>"
    by (auto simp: compileViewRef_setup_def Let_def split: sum.splits if_splits option.splits)
  from getViewNodes_root(2) [OF g] obtain vns where "h0 = h\<lparr>viewNodes := viewNodes h @ vns\<rparr>"
    by (auto simp: appended_def)
  with h' have r: "viewRefs h' = viewRefs h @
      [\<lparr>vr_componentRef = cref, vr_nodesTree = nt, vr_renderHost = None, vr_compiled = False\<rparr>]"
    and t: "trace h' = trace h"
    by simp_all
  have n: "\<not> vr_compiled (viewRefs h' ! length (viewRefs h))"
    by (simp add: r)
  have "flags_post h h'"
    using n t by (intro flags_post_new) (simp_all add: r nth_append)
  with n show ?thesis by (simp add: abort_post_def)
qed

lemma visit_all_abort:
  assumes IH: "abort_ok n C" and ok: "compile_ok n C"
  shows "visit_all n C v as T h = Some (Inl (e, h')) \<Longrightarrow>
     set as \<subseteq> {..<length (viewNodes h)} \<Longrightarrow> flags_post h h'"
proof (induction as arbitrary: T h)
  case Nil
  then show ?case by simp
next
  case (Cons a as)
  from Cons.prems(1) obtain x where x: "callback n C v a T h = Some x"
    by (auto split: option.splits)
  show ?case
  proof (cases x)
    case (Inl q)
    with x Cons.prems(1) have cb: "callback n C v a T h = Some (Inl (e, h'))" by simp
    then have "compileViewRef n C (resolve C (vn_componentSelector (viewNodes h ! a)))
        (vn_element (viewNodes h ! a)) (Some T) (Some v) (Some a) h = Some (Inl (e, h'))"
      by (simp add: callback_def resolve_def split: if_splits)
    then have "\<exists>c host T P H. compileViewRef n C c host T P H h = Some (Inl (e, h'))"
      by blast
    with IH show ?thesis
      unfolding abort_ok_def abort_post_def by blast
  next
    case (Inr p)
    obtain T1 h1 where p: "p = (T1, h1)" by (cases p)
    with x Inr have cb: "callback n C v a T h = Some (Inr (T1, h1))" by simp
    from Cons.prems(2) have a: "a < length (viewNodes h)" by simp
    from callback_post [OF ok cb a] have st: "step C {a} h h1" by simp
    then have f1: "flags_post h h1" by (rule step_flags)
    from cb Cons.prems(1) have rest: "visit_all n C v as T1 h1 = Some (Inl (e, h'))" by simp
    have "set as \<subseteq> {..<length (viewNodes h1)}"
      using Cons.prems(2) st by (auto simp: step_def)
    from Cons.IH [OF rest this] have "flags_post h1 h'" .
    with f1 show ?thesis by (rule flags_post_trans)
  qed
qed

lemma abort_ok_all: "abort_ok n C"
proof (induction n)
  case 0
  show ?case by (simp add: abort_ok_def)
next
  case (Suc n)
  show ?case
    unfolding abort_ok_def
  proof (intro allI impI)
    fix c host T P H h e h'
    assume run: "compileViewRef (Suc n) C c host T P H h = Some (Inl (e, h'))"
    show "abort_post h h'"
    proof (cases "compileViewRef_setup C c host T P H h")
      case (Inl q)
      with run have "compileViewRef_setup C c host T P H h = Inl (e, h')" by simp
      then show ?thesis by (rule setup_flags_Inl)
    next
      case (Inr q)
      obtain v nt t1 h1 where q: "q = (v, nt, t1, h1)" by (cases q)
      with Inr have s: "compileViewRef_setup C c host T P H h = Inr (v, nt, t1, h1)" by simp
      with run have "traverseDF n C v True nt t1 h1 = Some (Inl (e, h'))"
        by (auto split: option.splits sum.splits)
      then have vis: "visit_all n C v (preorder_list (children nt)) t1 h1 = Some (Inl (e, h'))"
        by (simp add: traverseDF_visit_all)
      have "set (preorder nt) \<subseteq> {..<length (viewNodes h1)}"
        by (auto simp: setup_Inr(6) [OF s])
      with children_subset [of nt]
      have sub: "set (preorder_list (children nt)) \<subseteq> {..<length (viewNodes h1)}" by blast
      from visit_all_abort [OF Suc compile_ok vis sub] have f2: "flags_post h1 h'" .
      from setup_flags_Inr [OF s] have f1: "flags_post h h1" .
      from f1 f2 have f: "flags_post h h'" by (rule flags_post_trans)
      have v: "v = length (viewRefs h)" by (rule setup_Inr(1) [OF s])
      from setup_Inr(4) [OF s] have "\<not> vr_compiled (viewRefs h1 ! v)" by auto
      moreover from f2 setup_Inr(2) [OF s] v have "viewRefs h' ! v = viewRefs h1 ! v"
        by (simp add: flags_post_def)
      ultimately have "\<not> vr_compiled (viewRefs h' ! length (viewRefs h))"
        using v by simp
      with f show ?thesis by (simp add: abort_post_def)
    qed
  qed
qed


section \<open>The compiled View Reference tree\<close>

lemma demo_run:
  "compile (Suc (Suc 0)) demo_compiler (Some 0) 100 empty_heap = Some (Inr (demo_tree, demo_heap))"
  by (simp add: compile_def compileViewRef_setup_def demo_compiler_def demo_factory_def
      demo_parser_def demo_registry_def demo_builder_def empty_heap_def buildViewNode_def
      tree_add_def updateRenderHost_def setViewRef_def setCompiled_def truthy_def
      demo_tree_def demo_heap_def)

lemma compile_top:
  assumes "compile n C c host h = Some (Inr (tree, h'))"
  shows "compile_post C c host None None None h tree h'"
  using assms compile_ok [of n C] by (simp add: compile_Inr compile_ok_def)

lemma compile_tree:
  assumes "compile n C c host h = Some (Inr (tree, h'))"
  shows "data tree = length (viewRefs h)"
    and "set (preorder tree) = {length (viewRefs h)..<length (viewRefs h')}"
    and "distinct (preorder tree)"
    and "length (viewRefs h) < length (viewRefs h')"
proof -
  note p = compile_top [OF assms]
  from p show d: "data tree = length (viewRefs h)"
    and s: "set (preorder tree) = {length (viewRefs h)..<length (viewRefs h')}"
    and "length (viewRefs h) < length (viewRefs h')"
    by (simp_all add: compile_post_def)
  from p have "length (preorder tree) = length (viewRefs h') - length (viewRefs h)"
    by (simp add: compile_post_def)
  then have "card (set (preorder tree)) = length (preorder tree)"
    by (simp add: s)
  then show "distinct (preorder tree)"
    by (rule card_distinct)
qed

lemma compile_step:
  assumes "compile n C c host h = Some (Inr (tree, h'))"
  shows "step C {} h h'"
  using compile_top [OF assms] by (simp add: compile_post_def)

lemma compile_settled:
  assumes "compile n C c host h = Some (Inr (tree, h'))" and "v \<in> set (preorder tree)"
  shows "settled C h' v"
  using compile_step [OF assms(1)] compile_tree(2) [OF assms(1)] assms(2)
  by (simp add: step_def)

lemma settled_linked:
  assumes "settled C h v"
    and "a \<in> set (preorder_list (children (vr_nodesTree (viewRefs h ! v))))"
  shows "linked C h v a"
  using assms by (simp add: settled_def)

lemma demo_setup:
  "compileViewRef_setup demo_compiler (Some 0) 100 None None None empty_heap
     = Inr (0, TreeNode 0 [TreeNode 1 []], TreeNode 0 [], demo_mid)"
  by (simp add: compileViewRef_setup_def demo_compiler_def demo_factory_def
      demo_parser_def demo_builder_def empty_heap_def buildViewNode_def
      tree_add_def updateRenderHost_def demo_mid_def)

lemma demo_inner_run:
  "compileViewRef (Suc 0) demo_compiler (Some 1) 101 (Some (TreeNode 0 [])) (Some 0) (Some 1) demo_mid
     = Some (Inr (demo_tree, demo_inner))"
  by (simp add: compileViewRef_setup_def demo_compiler_def demo_factory_def
      demo_parser_def demo_registry_def demo_builder_def buildViewNode_def
      tree_add_def updateRenderHost_def setViewRef_def setCompiled_def truthy_def
      demo_tree_def demo_heap_def demo_mid_def demo_inner_def)

lemma compile_total:
  assumes "compilable C n c host"
  shows "\<exists>tree h'. compile n C c host h = Some (Inr (tree, h'))"
proof -
  have "placed None None" by (simp add: placed_def)
  with assms total_ok_all [of n C] show ?thesis
    unfolding total_ok_def compile_Inr by blast
qed

lemma compileViewRef_total:
  assumes "compilable C n c host" and "P \<in> set (preorder T)"
  shows "\<exists>T' h'. compileViewRef n C c host (Some T) (Some P) H h = Some (Inr (T', h'))"
proof -
  have "placed (Some T) (Some P)" using assms(2) by (simp add: placed_def)
  with assms(1) total_ok_all [of n C] show ?thesis
    unfolding total_ok_def by blast
qed


lemma demo_buildBindings: "\<exists>bs. buildBindings (Some demo_builder) rs v vn = Inr bs"
  by (induction rs) (auto simp: demo_builder_def)

lemma demo_builds: "builds demo_compiler ast"
  by (simp add: builds_def demo_compiler_def demo_buildBindings)

lemma demo_compilable_child: "compilable demo_compiler (Suc 0) (Some 1) host"
proof -
  have f: "c_componentFactory demo_compiler (Some 1) host
      = Inr \<lparr>cr_instance = 1, cr_selector = ''child'', cr_template = ''<p>{{ title }}</p>'',
             cr_hostElement = host\<rparr>"
    by (simp add: demo_compiler_def demo_factory_def)
  have p: "c_parser demo_compiler ''<p>{{ title }}</p>'' host
      = Inr (TreeNode \<lparr>ast_element = host, ast_componentSelector = Some ''child'',
                        ast_bindings = [], ast_directive = None\<rparr>
              [TreeNode \<lparr>ast_element = host + 1, ast_componentSelector = None,
                         ast_bindings = [''title''], ast_directive = None\<rparr> []])"
    by (simp add: demo_compiler_def demo_parser_def)
  from f p show ?thesis
    by (simp add: demo_builds truthy_def)
qed

lemma demo_compilable: "compilable demo_compiler (Suc (Suc 0)) (Some 0) host"
proof -
  have f: "c_componentFactory demo_compiler (Some 0) host
      = Inr \<lparr>cr_instance = 0, cr_selector = ''app'', cr_template = ''<child></child>'',
             cr_hostElement = host\<rparr>"
    by (simp add: demo_compiler_def demo_factory_def)
  have p: "c_parser demo_compiler ''<child></child>'' host
      = Inr (TreeNode \<lparr>ast_element = host, ast_componentSelector = None,
                        ast_bindings = [], ast_directive = None\<rparr>
              [TreeNode \<lparr>ast_element = host + 1, ast_componentSelector = Some ''child'',
                         ast_bindings = [], ast_directive = None\<rparr> []])"
    by (simp add: demo_compiler_def demo_parser_def)
  have r: "resolve demo_compiler (Some ''child'') = Some 1"
    by (simp add: resolve_def demo_compiler_def demo_registry_def)
  have "compilable demo_compiler (Suc (Suc 0)) (Some 0) host
      = compilable demo_compiler (Suc 0) (Some 1) (host + 1)"
    unfolding compilable.simps(2) [of demo_compiler "Suc 0"] using f p r
    by (simp add: demo_builds truthy_def del: compilable.simps)
  with demo_compilable_child [of "host + 1"] show ?thesis
    by simp
qed

lemma demo_bare_run:
  "compileViewRef (Suc (Suc 0)) demo_bare (Some 0) 100 None None None empty_heap
     = Some (Inl (TypeError, demo_mid))"
  by (simp add: demo_bare_def View_constructor_def Compiler_getInstance_def Let_def
      no_statics_def demo_externals_def
      compileViewRef_setup_def demo_factory_def
      demo_parser_def demo_registry_def empty_heap_def buildViewNode_def
      tree_add_def updateRenderHost_def setViewRef_def truthy_def demo_mid_def)





lemma demo_aborted_run:
  "compileViewRef (Suc (Suc 0)) demo_strict (Some 3) 100 None None None empty_heap
     = Some (Inl (UnknownComponentError, demo_aborted))"
  by (simp add: compileViewRef_setup_def demo_strict_def demo_strict_factory_def
      demo_strict_parser_def demo_compiler_def
      demo_factory_def demo_parser_def demo_registry_def demo_builder_def empty_heap_def
      buildViewNode_def tree_add_def updateRenderHost_def setViewRef_def setCompiled_def
      truthy_def demo_aborted_def)



text \<open>
  C5, as amended.  After \<open>compile\<close> has returned, every View Node that carries a
  selector (one that the code's test counts as set: JavaScript truthiness, so not the empty
  string) and is not the root of its View Node tree has a View Reference, which is a node
  of the returned View Reference tree.  The root of a View Node tree is left out: the
  traversal skips it, and the root of a child component's tree carries the selector of
  its host element and stays without a View Reference.
\<close>

theorem placeholders_have_viewRef:
  assumes "compile n C component host h = Some (Inr (tree, h'))"
  shows "\<forall>v \<in> set (preorder tree).
           \<forall>a \<in> set (preorder_list (children (vr_nodesTree (viewRefs h' ! v)))).
             truthy (vn_componentSelector (viewNodes h' ! a)) \<longrightarrow>
             (\<exists>k \<in> set (preorder tree). vn_viewRef (viewNodes h' ! a) = Some k)"
proof (intro ballI impI)
  fix v a
  assume v: "v \<in> set (preorder tree)"
    and a: "a \<in> set (preorder_list (children (vr_nodesTree (viewRefs h' ! v))))"
    and t: "truthy (vn_componentSelector (viewNodes h' ! a))"
  from compile_settled [OF assms v] a have "linked C h' v a"
    by (rule settled_linked)
  with t obtain k where k: "vn_viewRef (viewNodes h' ! a) = Some k" "v < k"
      "k < length (viewRefs h')"
    by (auto simp: linked_def split: option.splits)
  from v k(2,3) have "k \<in> set (preorder tree)"
    by (simp add: compile_tree(2) [OF assms])
  with k(1) show "\<exists>k \<in> set (preorder tree). vn_viewRef (viewNodes h' ! a) = Some k"
    by blast
qed

theorem placeholders_have_viewRef_witness:
  "compile (Suc (Suc 0)) demo_compiler (Some 0) 100 empty_heap = Some (Inr (demo_tree, demo_heap)) \<and>
   0 \<in> set (preorder demo_tree) \<and>
   1 \<in> set (preorder_list (children (vr_nodesTree (viewRefs demo_heap ! 0)))) \<and>
   truthy (vn_componentSelector (viewNodes demo_heap ! 1)) \<and>
   (\<exists>k \<in> set (preorder demo_tree). vn_viewRef (viewNodes demo_heap ! 1) = Some k)"
proof -
  have v: "0 \<in> set (preorder demo_tree)"
    by (simp add: demo_tree_def)
  have a: "1 \<in> set (preorder_list (children (vr_nodesTree (viewRefs demo_heap ! 0))))"
    by (simp add: demo_heap_def)
  have t: "truthy (vn_componentSelector (viewNodes demo_heap ! 1))"
    by (simp add: demo_heap_def truthy_def)
  from placeholders_have_viewRef [OF demo_run, rule_format, OF v a t] demo_run v a t
  show ?thesis by simp
qed

text \<open>
  The claim as stated fails: View Node 2, the root of the View Node tree of \<open>child\<close>,
  carries the selector \<open>child\<close> and has no View Reference when \<open>compile\<close> has
  returned.
\<close>

theorem placeholders_have_viewRef_counterexample:
  "compile (Suc (Suc 0)) demo_compiler (Some 0) 100 empty_heap = Some (Inr (demo_tree, demo_heap)) \<and>
   1 \<in> set (preorder demo_tree) \<and>
   2 \<in> set (preorder (vr_nodesTree (viewRefs demo_heap ! 1))) \<and>
   vn_componentSelector (viewNodes demo_heap ! 2) = Some ''child'' \<and>
   vn_viewRef (viewNodes demo_heap ! 2) = None"
  using demo_run by (simp add: demo_tree_def demo_heap_def)

text \<open>
  C6.  The traversal never takes the root of a View Node tree for a placeholder: on the
  root it goes on to the children whatever selector the root carries, so that when
  \<open>compile\<close> has returned the root of every View Node tree is without a View Reference (no
  View Reference was compiled for it), and a View Node that has one is not a root and
  carries a selector.
\<close>

theorem root_never_placeholder:
  assumes "compile n C component host h = Some (Inr (tree, h'))"
  shows "(\<forall>v \<in> set (preorder tree).
            vn_viewRef (viewNodes h' ! data (vr_nodesTree (viewRefs h' ! v))) = None \<and>
            (\<forall>a \<in> set (preorder_list (children (vr_nodesTree (viewRefs h' ! v)))).
               vn_viewRef (viewNodes h' ! a) \<noteq> None \<longrightarrow>
               truthy (vn_componentSelector (viewNodes h' ! a)))) \<and>
         traverseDF m C w True (TreeNode r cs) T g = traverseDF_children m C w cs T g"
proof (intro conjI ballI impI)
  fix v assume v: "v \<in> set (preorder tree)"
  note s = compile_settled [OF assms v]
  from s show "vn_viewRef (viewNodes h' ! data (vr_nodesTree (viewRefs h' ! v))) = None"
    by (simp add: settled_def)
  fix a
  assume a: "a \<in> set (preorder_list (children (vr_nodesTree (viewRefs h' ! v))))"
    and r: "vn_viewRef (viewNodes h' ! a) \<noteq> None"
  from s a have "linked C h' v a" by (rule settled_linked)
  with r show "truthy (vn_componentSelector (viewNodes h' ! a))"
    by (auto simp: linked_def split: if_splits)
next
  show "traverseDF m C w True (TreeNode r cs) T g = traverseDF_children m C w cs T g"
    by simp
qed

theorem root_never_placeholder_witness:
  "compile (Suc (Suc 0)) demo_compiler (Some 0) 100 empty_heap = Some (Inr (demo_tree, demo_heap)) \<and>
   1 \<in> set (preorder demo_tree) \<and>
   data (vr_nodesTree (viewRefs demo_heap ! 1)) = 2 \<and>
   vn_componentSelector (viewNodes demo_heap ! 2) = Some ''child'' \<and>
   vn_viewRef (viewNodes demo_heap ! data (vr_nodesTree (viewRefs demo_heap ! 1))) = None"
proof -
  have v: "1 \<in> set (preorder demo_tree)"
    by (simp add: demo_tree_def)
  from root_never_placeholder [OF demo_run, THEN conjunct1, rule_format, OF v, THEN conjunct1]
    demo_run v
  show ?thesis by (simp add: demo_heap_def)
qed

lemma call_marks_last:
  assumes run: "compileViewRef m C c host T P H g = Some (Inr (T', g'))"
    and valid: "\<forall>a. H = Some a \<longrightarrow> a < length (viewNodes g)"
  shows "\<exists>ws. trace g' = trace g @ map CompiledSet ws @ [CompiledSet (length (viewRefs g))] \<and>
           distinct ws \<and> set ws = {Suc (length (viewRefs g))..<length (viewRefs g')}"
    and "\<forall>i. length (viewRefs g) \<le> i \<and> i < length (viewRefs g') \<longrightarrow>
           vr_compiled (viewRefs g' ! i)"
    and "\<forall>i < length (viewRefs g). viewRefs g' ! i = viewRefs g ! i"
proof -
  let ?v = "length (viewRefs g)"
  from compile_ok [of m C] run valid have p: "compile_post C c host T P H g T' g'"
    unfolding compile_ok_def by blast
  then have st: "step C (set_option H) g g'"
    by (simp add: compile_post_def)
  from st obtain ws1 where ws1: "trace g' = trace g @ map CompiledSet ws1" "distinct ws1"
      "set ws1 = {?v..<length (viewRefs g')}"
    by (auto simp: step_def)
  from p obtain ws2 where ws2: "trace g' = trace g @ map CompiledSet (ws2 @ [?v])"
    by (auto simp: compile_post_def)
  have "inj CompiledSet"
    by (simp add: inj_def)
  moreover from ws1(1) ws2 have "map CompiledSet ws1 = map CompiledSet (ws2 @ [?v])"
    by simp
  ultimately have eq: "ws1 = ws2 @ [?v]"
    by (simp only: inj_map_eq_map)
  from ws1(2) eq have d: "distinct ws2" and n: "?v \<notin> set ws2"
    by simp_all
  from ws1(3) eq have ins: "insert ?v (set ws2) = {?v..<length (viewRefs g')}"
    by simp
  from n have "set ws2 = insert ?v (set ws2) - {?v}"
    by simp
  also have "\<dots> = {?v..<length (viewRefs g')} - {?v}"
    by (simp only: ins)
  also have "\<dots> = {Suc ?v..<length (viewRefs g')}"
    by auto
  finally have s: "set ws2 = {Suc ?v..<length (viewRefs g')}" .
  from ws2 d s show "\<exists>ws. trace g' = trace g @ map CompiledSet ws @ [CompiledSet ?v] \<and>
      distinct ws \<and> set ws = {Suc ?v..<length (viewRefs g')}"
    by auto
  from st show "\<forall>i. ?v \<le> i \<and> i < length (viewRefs g') \<longrightarrow> vr_compiled (viewRefs g' ! i)"
    by (simp add: step_def settled_def)
  from st show "\<forall>i < ?v. viewRefs g' ! i = viewRefs g ! i"
    by (simp add: step_def)
qed

text \<open>
  C4, as amended.  A View Reference is created with \<open>compiled = false\<close> (first part).  A
  call of \<open>_compileViewRef\<close> that returns has set the flag of every View Reference created
  during the call, each exactly once: first those of the View References created after
  its own, which are its child View References and theirs in turn, and last its own;
  the View References that existed before the call are as they were, so no flag is ever
  reset (second part).  For a whole compilation that returns (third part): the flag of
  every View Reference of the returned tree is set, each was set exactly once, when its
  View Node tree was in the store and after the flag of every View Reference that a node
  of that tree holds.  A compilation of components that compile within the bound on the
  depth does return (fourth part).  A call that an error aborts (fifth part) has set the
  flag of a View Reference created during the call at most once, has reset none, and
  leaves its own View Reference, if it created one, with \<open>compiled = false\<close>: the
  assignment is not reached.
\<close>

theorem compiled_exactly_once:
  shows "(compileViewRef_setup C c0 host0 T0 P0 H0 g = Inr (v0, nt0, t0, g0) \<longrightarrow>
            v0 = length (viewRefs g) \<and> \<not> vr_compiled (viewRefs g0 ! v0)) \<and>
         (compileViewRef m C c1 host1 T1 P1 H1 g1 = Some (Inr (T', g')) \<longrightarrow>
          (\<forall>a. H1 = Some a \<longrightarrow> a < length (viewNodes g1)) \<longrightarrow>
            (\<exists>ws. trace g' = trace g1 @ map CompiledSet ws @ [CompiledSet (length (viewRefs g1))] \<and>
                  distinct ws \<and> set ws = {Suc (length (viewRefs g1))..<length (viewRefs g')}) \<and>
            (\<forall>i. length (viewRefs g1) \<le> i \<and> i < length (viewRefs g') \<longrightarrow>
                 vr_compiled (viewRefs g' ! i)) \<and>
            (\<forall>i < length (viewRefs g1). viewRefs g' ! i = viewRefs g1 ! i)) \<and>
         (compile n C component host h = Some (Inr (tree, h')) \<longrightarrow>
            (\<exists>ws. trace h' = trace h @ map CompiledSet ws \<and> distinct ws \<and>
                  set ws = set (preorder tree)) \<and>
            (\<forall>v \<in> set (preorder tree).
               vr_compiled (viewRefs h' ! v) \<and>
               set (preorder (vr_nodesTree (viewRefs h' ! v))) \<subseteq> {..<length (viewNodes h')} \<and>
               (\<forall>a \<in> set (preorder_list (children (vr_nodesTree (viewRefs h' ! v)))).
                  \<forall>k. vn_viewRef (viewNodes h' ! a) = Some k \<longrightarrow>
                      k \<in> set (preorder tree) \<and>
                      precedes (CompiledSet k) (CompiledSet v) (trace h'))) \<and>
            (\<forall>i < length (viewRefs h). viewRefs h' ! i = viewRefs h ! i)) \<and>
         (compilable C n component host \<longrightarrow>
            (\<exists>t s. compile n C component host h = Some (Inr (t, s)))) \<and>
         (compileViewRef m C c2 host2 T2 P2 H2 g2 = Some (Inl (e, g3)) \<longrightarrow>
            length (viewRefs g2) \<le> length (viewRefs g3) \<and>
            (\<forall>i < length (viewRefs g2). viewRefs g3 ! i = viewRefs g2 ! i) \<and>
            (\<exists>ws. trace g3 = trace g2 @ map CompiledSet ws \<and> distinct ws \<and>
                  set ws \<subseteq> {length (viewRefs g2)..<length (viewRefs g3)} \<and>
                  (\<forall>i. length (viewRefs g2) \<le> i \<and> i < length (viewRefs g3) \<longrightarrow>
                       vr_compiled (viewRefs g3 ! i) = (i \<in> set ws))) \<and>
            (length (viewRefs g2) < length (viewRefs g3) \<longrightarrow>
               \<not> vr_compiled (viewRefs g3 ! length (viewRefs g2))))"
proof (intro conjI impI)
  assume s: "compileViewRef_setup C c0 host0 T0 P0 H0 g = Inr (v0, nt0, t0, g0)"
  from setup_Inr(1) [OF s] show "v0 = length (viewRefs g)" .
  from setup_Inr(4) [OF s] show "\<not> vr_compiled (viewRefs g0 ! v0)" by auto
next
  assume run: "compileViewRef m C c1 host1 T1 P1 H1 g1 = Some (Inr (T', g'))"
    and valid: "\<forall>a. H1 = Some a \<longrightarrow> a < length (viewNodes g1)"
  from call_marks_last [OF run valid]
  show "\<exists>ws. trace g' = trace g1 @ map CompiledSet ws @ [CompiledSet (length (viewRefs g1))] \<and>
        distinct ws \<and> set ws = {Suc (length (viewRefs g1))..<length (viewRefs g')}"
    and "\<forall>i. length (viewRefs g1) \<le> i \<and> i < length (viewRefs g') \<longrightarrow>
        vr_compiled (viewRefs g' ! i)"
    and "\<forall>i < length (viewRefs g1). viewRefs g' ! i = viewRefs g1 ! i"
    by simp_all
next
  assume run: "compile n C component host h = Some (Inr (tree, h'))"
  note st = compile_step [OF run]
  from st compile_tree(2) [OF run]
  show "\<exists>ws. trace h' = trace h @ map CompiledSet ws \<and> distinct ws \<and>
      set ws = set (preorder tree)"
    by (simp add: step_def)
  from st show "\<forall>i < length (viewRefs h). viewRefs h' ! i = viewRefs h ! i"
    by (simp add: step_def)
  show "\<forall>v \<in> set (preorder tree).
      vr_compiled (viewRefs h' ! v) \<and>
      set (preorder (vr_nodesTree (viewRefs h' ! v))) \<subseteq> {..<length (viewNodes h')} \<and>
      (\<forall>a \<in> set (preorder_list (children (vr_nodesTree (viewRefs h' ! v)))).
         \<forall>k. vn_viewRef (viewNodes h' ! a) = Some k \<longrightarrow>
             k \<in> set (preorder tree) \<and>
             precedes (CompiledSet k) (CompiledSet v) (trace h'))"
  proof (intro ballI conjI allI impI)
    fix v assume v: "v \<in> set (preorder tree)"
    note s = compile_settled [OF run v]
    from s show "vr_compiled (viewRefs h' ! v)"
      by (simp add: settled_def)
    from s show "set (preorder (vr_nodesTree (viewRefs h' ! v))) \<subseteq> {..<length (viewNodes h')}"
      by (simp add: settled_def)
    fix a k
    assume a: "a \<in> set (preorder_list (children (vr_nodesTree (viewRefs h' ! v))))"
      and k: "vn_viewRef (viewNodes h' ! a) = Some k"
    from s a have l: "linked C h' v a" by (rule settled_linked)
    with k have "v < k \<and> k < length (viewRefs h')"
      by (auto simp: linked_def split: if_splits)
    with v show "k \<in> set (preorder tree)"
      by (simp add: compile_tree(2) [OF run])
    from l k show "precedes (CompiledSet k) (CompiledSet v) (trace h')"
      by (auto simp: linked_def split: if_splits)
  qed
next
  assume "compilable C n component host"
  then show "\<exists>t s. compile n C component host h = Some (Inr (t, s))"
    by (rule compile_total)
next
  assume run: "compileViewRef m C c2 host2 T2 P2 H2 g2 = Some (Inl (e, g3))"
  with abort_ok_all [of m C] have p: "abort_post g2 g3"
    unfolding abort_ok_def by blast
  then have f: "flags_post g2 g3"
    by (simp add: abort_post_def)
  from f show "length (viewRefs g2) \<le> length (viewRefs g3)"
    and "\<forall>i < length (viewRefs g2). viewRefs g3 ! i = viewRefs g2 ! i"
    by (simp_all add: flags_post_def)
  from f show "\<exists>ws. trace g3 = trace g2 @ map CompiledSet ws \<and> distinct ws \<and>
      set ws \<subseteq> {length (viewRefs g2)..<length (viewRefs g3)} \<and>
      (\<forall>i. length (viewRefs g2) \<le> i \<and> i < length (viewRefs g3) \<longrightarrow>
           vr_compiled (viewRefs g3 ! i) = (i \<in> set ws))"
    by (simp add: flags_post_def)
  assume "length (viewRefs g2) < length (viewRefs g3)"
  with p show "\<not> vr_compiled (viewRefs g3 ! length (viewRefs g2))"
    by (simp add: abort_post_def)
qed

theorem compiled_exactly_once_witness:
  "compileViewRef_setup demo_compiler (Some 0) 100 None None None empty_heap
     = Inr (0, TreeNode 0 [TreeNode 1 []], TreeNode 0 [], demo_mid) \<and>
   \<not> vr_compiled (viewRefs demo_mid ! 0) \<and>
   compileViewRef (Suc 0) demo_compiler (Some 1) 101 (Some (TreeNode 0 [])) (Some 0) (Some 1) demo_mid
     = Some (Inr (demo_tree, demo_inner)) \<and>
   1 < length (viewNodes demo_mid) \<and>
   (\<exists>ws. trace demo_inner = trace demo_mid @ map CompiledSet ws @ [CompiledSet 1]) \<and>
   vr_compiled (viewRefs demo_inner ! 1) \<and>
   viewRefs demo_inner ! 0 = viewRefs demo_mid ! 0 \<and>
   compilable demo_compiler (Suc (Suc 0)) (Some 0) 100 \<and>
   compile (Suc (Suc 0)) demo_compiler (Some 0) 100 empty_heap = Some (Inr (demo_tree, demo_heap)) \<and>
   trace demo_heap = [CompiledSet 1, CompiledSet 0] \<and>
   vr_compiled (viewRefs demo_heap ! 0) \<and> vr_compiled (viewRefs demo_heap ! 1) \<and>
   vn_viewRef (viewNodes demo_heap ! 1) = Some 1 \<and>
   precedes (CompiledSet 1) (CompiledSet 0) (trace demo_heap) \<and>
   compileViewRef (Suc (Suc 0)) demo_strict (Some 3) 100 None None None empty_heap
     = Some (Inl (UnknownComponentError, demo_aborted)) \<and>
   length (viewRefs empty_heap) < length (viewRefs demo_aborted) \<and>
   \<not> vr_compiled (viewRefs demo_aborted ! length (viewRefs empty_heap)) \<and>
   vr_compiled (viewRefs demo_aborted ! 1) \<and>
   trace demo_aborted = trace empty_heap @ map CompiledSet [1]"
proof -
  note inst = compiled_exactly_once [where C = demo_compiler and ?c0.0 = "Some 0"
      and ?host0.0 = 100 and ?T0.0 = None and ?P0.0 = None and ?H0.0 = None and g = empty_heap
      and ?v0.0 = 0 and ?nt0.0 = "TreeNode 0 [TreeNode 1 []]" and ?t0.0 = "TreeNode 0 []"
      and ?g0.0 = demo_mid
      and m = "Suc 0" and ?c1.0 = "Some 1" and ?host1.0 = 101 and ?T1.0 = "Some (TreeNode 0 [])"
      and ?P1.0 = "Some 0" and ?H1.0 = "Some 1" and ?g1.0 = demo_mid and T' = demo_tree
      and g' = demo_inner
      and n = "Suc (Suc 0)" and component = "Some 0" and host = 100 and h = empty_heap
      and tree = demo_tree and h' = demo_heap]
  note aborted = compiled_exactly_once [where C = demo_strict and m = "Suc (Suc 0)"
      and ?c2.0 = "Some 3" and ?host2.0 = 100 and ?T2.0 = None and ?P2.0 = None and ?H2.0 = None
      and ?g2.0 = empty_heap and e = UnknownComponentError and ?g3.0 = demo_aborted]
  have v: "0 \<in> set (preorder demo_tree)" "1 \<in> set (preorder demo_tree)"
    by (simp_all add: demo_tree_def)
  have a: "1 \<in> set (preorder_list (children (vr_nodesTree (viewRefs demo_heap ! 0))))"
    by (simp add: demo_heap_def)
  have k: "vn_viewRef (viewNodes demo_heap ! 1) = Some 1"
    by (simp add: demo_heap_def)
  have H: "\<forall>a. Some (1::nat) = Some a \<longrightarrow> a < length (viewNodes demo_mid)"
    by (simp add: demo_mid_def)
  have len: "length (viewRefs demo_mid) = 1" "length (viewRefs demo_inner) = 2"
      "length (viewRefs empty_heap) = 0"
    by (simp_all add: demo_mid_def demo_inner_def demo_heap_def empty_heap_def)
  from inst [THEN conjunct1, rule_format, OF demo_setup]
  have first: "\<not> vr_compiled (viewRefs demo_mid ! 0)" by simp
  note second = inst [THEN conjunct2, THEN conjunct1, rule_format, OF demo_inner_run H [rule_format]]
  from second have s1: "\<exists>ws. trace demo_inner = trace demo_mid @ map CompiledSet ws @ [CompiledSet 1]"
    by (auto simp: len)
  from second have s2: "vr_compiled (viewRefs demo_inner ! 1)"
    by (simp add: len)
  from second have s3: "viewRefs demo_inner ! 0 = viewRefs demo_mid ! 0"
    by (simp add: len)
  note third = inst [THEN conjunct2, THEN conjunct2, THEN conjunct1, rule_format, OF demo_run]
  from third have "vr_compiled (viewRefs demo_heap ! 0)" "vr_compiled (viewRefs demo_heap ! 1)"
    using v by blast+
  moreover from third have "precedes (CompiledSet 1) (CompiledSet 0) (trace demo_heap)"
    using v(1) a k by blast
  moreover have "trace demo_heap = [CompiledSet 1, CompiledSet 0]"
    by (simp add: demo_heap_def)
  moreover have "1 < length (viewNodes demo_mid)"
    by (simp add: demo_mid_def)
  moreover have l: "length (viewRefs empty_heap) < length (viewRefs demo_aborted)"
    by (simp add: empty_heap_def demo_aborted_def)
  moreover from aborted [THEN conjunct2, THEN conjunct2, THEN conjunct2, THEN conjunct2,
      rule_format, OF demo_aborted_run]
  have "\<not> vr_compiled (viewRefs demo_aborted ! length (viewRefs empty_heap))"
    using l by blast
  moreover have "vr_compiled (viewRefs demo_aborted ! 1)"
    by (simp add: demo_aborted_def)
  moreover have "trace demo_aborted = trace empty_heap @ map CompiledSet [1]"
    by (simp add: empty_heap_def demo_aborted_def)
  ultimately show ?thesis
    using demo_setup demo_inner_run demo_run demo_aborted_run demo_compilable [of 100]
      first s1 s2 s3 k
    by simp
qed

text \<open>
  The claim as stated fails on a compilation that an error aborts.  The Compiler that
  the View creates has no binding builder.  Compiling the entry component of the small
  application with it creates View Reference 0, with \<open>compiled = false\<close>; the recursive
  call for \<open>child\<close> raises a \<open>TypeError\<close> at the raw binding of that component's template,
  the error leaves every running \<open>_compileViewRef\<close> before its last assignment, and the
  flag of View Reference 0 is never set: no flag was set at all.
\<close>

theorem compiled_exactly_once_counterexample:
  "compileViewRef (Suc (Suc 0)) demo_bare (Some 0) 100 None None None empty_heap
     = Some (Inl (TypeError, demo_mid)) \<and>
   compile (Suc (Suc 0)) demo_bare (Some 0) 100 empty_heap = Some (Inl TypeError) \<and>
   viewRefs empty_heap = [] \<and>
   length (viewRefs demo_mid) = 1 \<and>
   \<not> vr_compiled (viewRefs demo_mid ! 0) \<and>
   trace demo_mid = []"
  using demo_bare_run by (simp add: compile_def demo_mid_def empty_heap_def)

text \<open>
  C7.  The outermost call, on a component that compiles within the bound on the depth
  (first part), returns a View Reference tree whose root is the View Reference that the
  call created for the given component and host, with the given host as its render
  host; every View Reference created during the compilation is a node of that one tree,
  once.  A recursive call, made with the tree, a parent that is a node of the tree and a
  hosting View Node, on a component that compiles (second part), returns the same tree,
  with the same root and its former edges, and with the new View Reference as a child of
  the given parent; the hosting View Node holds the new View Reference, whose render host
  is not set.  The same holds of every outermost call (third part) and of every
  recursive call (fourth part) that returns, and what the outermost call returns does
  not depend on the bound on the depth, once the bound is large enough for it to return.
\<close>

theorem viewRefTree_root_and_graft:
  shows "(compilable C n component host \<longrightarrow>
            (\<exists>t s. compile n C component host h = Some (Inr (t, s)) \<and>
               data t = length (viewRefs h) \<and>
               c_componentFactory C component host = Inr (vr_componentRef (viewRefs s ! data t)) \<and>
               vr_renderHost (viewRefs s ! data t) = Some host \<and>
               set (preorder t) = {length (viewRefs h)..<length (viewRefs s)} \<and>
               distinct (preorder t))) \<and>
         (compilable C m component' host' \<longrightarrow> P \<in> set (preorder T) \<longrightarrow>
          H < length (viewNodes g) \<longrightarrow>
            (\<exists>t s. compileViewRef m C component' host' (Some T) (Some P) (Some H) g
                     = Some (Inr (t, s)) \<and>
               data t = data T \<and>
               (P, length (viewRefs g)) \<in> set (edges t) \<and>
               set (edges T) \<subseteq> set (edges t) \<and>
               set (preorder t) = set (preorder T) \<union> {length (viewRefs g)..<length (viewRefs s)} \<and>
               vn_viewRef (viewNodes s ! H) = Some (length (viewRefs g)) \<and>
               c_componentFactory C component' host'
                 = Inr (vr_componentRef (viewRefs s ! length (viewRefs g))) \<and>
               vr_renderHost (viewRefs s ! length (viewRefs g)) = None)) \<and>
         (compile n C component host h = Some (Inr (tree, h')) \<longrightarrow>
            compile (n + k) C component host h = Some (Inr (tree, h')) \<and>
            data tree = length (viewRefs h) \<and>
            length (viewRefs h) < length (viewRefs h') \<and>
            c_componentFactory C component host = Inr (vr_componentRef (viewRefs h' ! data tree)) \<and>
            vr_renderHost (viewRefs h' ! data tree) = Some host \<and>
            set (preorder tree) = {length (viewRefs h)..<length (viewRefs h')} \<and>
            distinct (preorder tree)) \<and>
         (compileViewRef m C component' host' (Some T) (Some P) (Some H) g = Some (Inr (T', g')) \<longrightarrow>
            H < length (viewNodes g) \<longrightarrow>
            data T' = data T \<and>
            (P, length (viewRefs g)) \<in> set (edges T') \<and>
            set (edges T) \<subseteq> set (edges T') \<and>
            set (preorder T') = set (preorder T) \<union> {length (viewRefs g)..<length (viewRefs g')} \<and>
            vn_viewRef (viewNodes g' ! H) = Some (length (viewRefs g)) \<and>
            c_componentFactory C component' host'
              = Inr (vr_componentRef (viewRefs g' ! length (viewRefs g))) \<and>
            vr_renderHost (viewRefs g' ! length (viewRefs g)) = None)"
proof -
  have outer: "compile (n + k) C component host h = Some (Inr (t, s)) \<and>
      data t = length (viewRefs h) \<and>
      length (viewRefs h) < length (viewRefs s) \<and>
      c_componentFactory C component host = Inr (vr_componentRef (viewRefs s ! data t)) \<and>
      vr_renderHost (viewRefs s ! data t) = Some host \<and>
      set (preorder t) = {length (viewRefs h)..<length (viewRefs s)} \<and>
      distinct (preorder t)"
    if run: "compile n C component host h = Some (Inr (t, s))" for t s
  proof -
    note p = compile_top [OF run] and t = compile_tree [OF run]
    from run have "compile (n + k) C component host h = Some (Inr (t, s))"
      by (rule compile_fuel)
    moreover from p t(1) have "c_componentFactory C component host
        = Inr (vr_componentRef (viewRefs s ! data t))"
      by (simp add: compile_post_def)
    moreover from p t(1) have "vr_renderHost (viewRefs s ! data t) = Some host"
      by (simp add: compile_post_def)
    ultimately show ?thesis
      using t by simp
  qed
  have inner: "data t = data T \<and>
      (P, length (viewRefs g)) \<in> set (edges t) \<and>
      set (edges T) \<subseteq> set (edges t) \<and>
      set (preorder t) = set (preorder T) \<union> {length (viewRefs g)..<length (viewRefs s)} \<and>
      vn_viewRef (viewNodes s ! H) = Some (length (viewRefs g)) \<and>
      c_componentFactory C component' host'
        = Inr (vr_componentRef (viewRefs s ! length (viewRefs g))) \<and>
      vr_renderHost (viewRefs s ! length (viewRefs g)) = None"
    if run: "compileViewRef m C component' host' (Some T) (Some P) (Some H) g = Some (Inr (t, s))"
      and H: "H < length (viewNodes g)" for t s
  proof -
    from compile_ok [of m C] run H
    have p: "compile_post C component' host' (Some T) (Some P) (Some H) g t s"
      unfolding compile_ok_def by blast
    then have tp: "tree_post T t g s" and e: "(P, length (viewRefs g)) \<in> set (edges t)"
      by (simp_all add: compile_post_def)
    from p have "viewNodes s ! H = (viewNodes g ! H)\<lparr>vn_viewRef := Some (length (viewRefs g))\<rparr>"
      by (simp add: compile_post_def)
    then have "vn_viewRef (viewNodes s ! H) = Some (length (viewRefs g))"
      by simp
    moreover from p have "c_componentFactory C component' host'
        = Inr (vr_componentRef (viewRefs s ! length (viewRefs g)))"
      by (simp add: compile_post_def)
    moreover from p have "vr_renderHost (viewRefs s ! length (viewRefs g)) = None"
      by (simp add: compile_post_def)
    ultimately show ?thesis
      using tp e by (simp add: tree_post_def)
  qed
  have 1: "\<exists>t s. compile n C component host h = Some (Inr (t, s)) \<and>
      data t = length (viewRefs h) \<and>
      c_componentFactory C component host = Inr (vr_componentRef (viewRefs s ! data t)) \<and>
      vr_renderHost (viewRefs s ! data t) = Some host \<and>
      set (preorder t) = {length (viewRefs h)..<length (viewRefs s)} \<and>
      distinct (preorder t)"
    if "compilable C n component host"
  proof -
    from compile_total [OF that] obtain t s where
      run: "compile n C component host h = Some (Inr (t, s))" by blast
    from outer [OF run] run show ?thesis by blast
  qed
  have 2: "\<exists>t s. compileViewRef m C component' host' (Some T) (Some P) (Some H) g
         = Some (Inr (t, s)) \<and>
      data t = data T \<and>
      (P, length (viewRefs g)) \<in> set (edges t) \<and>
      set (edges T) \<subseteq> set (edges t) \<and>
      set (preorder t) = set (preorder T) \<union> {length (viewRefs g)..<length (viewRefs s)} \<and>
      vn_viewRef (viewNodes s ! H) = Some (length (viewRefs g)) \<and>
      c_componentFactory C component' host'
        = Inr (vr_componentRef (viewRefs s ! length (viewRefs g))) \<and>
      vr_renderHost (viewRefs s ! length (viewRefs g)) = None"
    if "compilable C m component' host'" and "P \<in> set (preorder T)" and H: "H < length (viewNodes g)"
  proof -
    from compileViewRef_total [OF that(1,2)] obtain t s where
      run: "compileViewRef m C component' host' (Some T) (Some P) (Some H) g = Some (Inr (t, s))"
      by blast
    from inner [OF run H] run show ?thesis by blast
  qed
  from 1 2 outer [of tree h'] inner [of T' g'] show ?thesis
    by blast
qed

theorem viewRefTree_root_and_graft_witness:
  "compilable demo_compiler (Suc (Suc 0)) (Some 0) 100 \<and>
   compile (Suc (Suc 0)) demo_compiler (Some 0) 100 empty_heap = Some (Inr (demo_tree, demo_heap)) \<and>
   data demo_tree = 0 \<and> vr_renderHost (viewRefs demo_heap ! 0) = Some 100 \<and>
   compilable demo_compiler (Suc 0) (Some 1) 101 \<and>
   0 \<in> set (preorder (TreeNode (0::nat) [])) \<and>
   1 < length (viewNodes demo_mid) \<and>
   compileViewRef (Suc 0) demo_compiler (Some 1) 101 (Some (TreeNode 0 [])) (Some 0) (Some 1) demo_mid
     = Some (Inr (demo_tree, demo_inner)) \<and>
   (0, 1) \<in> set (edges demo_tree) \<and>
   vn_viewRef (viewNodes demo_inner ! 1) = Some 1 \<and>
   vr_renderHost (viewRefs demo_inner ! 1) = None"
proof -
  note inst = viewRefTree_root_and_graft [where n = "Suc (Suc 0)" and C = demo_compiler
      and component = "Some 0" and host = 100 and h = empty_heap
      and m = "Suc 0" and component' = "Some 1" and host' = 101 and T = "TreeNode 0 []"
      and P = 0 and H = 1 and g = demo_mid]
  have H: "1 < length (viewNodes demo_mid)"
    by (simp add: demo_mid_def)
  have P: "0 \<in> set (preorder (TreeNode (0::nat) []))"
    by simp
  have len: "length (viewRefs demo_mid) = 1" "length (viewRefs empty_heap) = 0"
    by (simp_all add: demo_mid_def empty_heap_def)
  from inst [THEN conjunct1, rule_format, OF demo_compilable [of 100]] demo_run
  have "data demo_tree = 0 \<and> vr_renderHost (viewRefs demo_heap ! 0) = Some 100"
    by (auto simp: len)
  moreover from inst [THEN conjunct2, THEN conjunct1, rule_format, OF demo_compilable_child [of 101] P H]
    demo_inner_run
  have "(0, 1) \<in> set (edges demo_tree) \<and> vn_viewRef (viewNodes demo_inner ! 1) = Some 1 \<and>
      vr_renderHost (viewRefs demo_inner ! 1) = None"
    by (auto simp: len)
  ultimately show ?thesis
    using demo_run demo_inner_run H demo_compilable [of 100] demo_compilable_child [of 101]
    by simp
qed

section \<open>Bootstrap\<close>







section \<open>Unresolved selectors\<close>




end
